theory Spec2Isabelle
  imports Main "HOL-Library.Word"
begin

unbundle bit_operations_syntax

section \<open>Data model\<close>

text \<open>
  The codec of \<^verbatim>\<open>lzss.cpp\<close> works on raw buffers. An \<^verbatim>\<open>unsigned char\<close> is an
  \<open>8 word\<close>, an \<^verbatim>\<open>int\<close> accumulator is a \<open>32 word\<close> (shifts and additions wrap,
  \<^verbatim>\<open>>>\<close> on it is the arithmetic shift \<open>signed_drop_bit\<close>). The compressed buffer
  is only ever accessed through aligned \<^verbatim>\<open>int*\<close> pointers, so it is a store from the
  byte offset of a cell (relative to the buffer's base) to the \<^verbatim>\<open>int\<close> held there.
  The store is total: a write past the stated capacity is a write to the store at that
  offset, so an overrun is visible in the model. Pointers into a buffer are byte offsets
  (\<open>nat\<close>). The input of \<^verbatim>\<open>compress\<close> is the list of its \<^verbatim>\<open>inputLength\<close> bytes.
\<close>

type_synonym byte = "8 word"
type_synonym memory = "nat \<Rightarrow> 32 word"

text \<open>
  The calls of \<^verbatim>\<open>error(...)\<close>, which print a message and leave the process, one
  constructor for each message; and the three ways in which \<^verbatim>\<open>decompress\<close> can step
  outside defined behaviour on a stream it trusts: a shift by a negative amount (dictionary
  length 0 in the header), a \<^verbatim>\<open>memcpy\<close> whose source starts before the output
  buffer or whose source and destination ranges overlap, and a write past the end of the
  output buffer.
\<close>

datatype error =
    DictionaryNotPowerOf2
  | DictionaryTooSmall
  | DictionaryTooLarge
  | DestinationTooSmall
  | NegativeShift
  | MemcpySourceBelowBuffer
  | MemcpyOverlap
  | OutputOverrun

section \<open>The length-shift loop\<close>

text \<open>
  \<^verbatim>\<open>int lengthShift = -1; while (dictionaryLength) { lengthShift++; dictionaryLength >>= 1; }\<close>
  appears in both functions. On a negative value the arithmetic shift never reaches 0, so the
  loop is a partial function: not returning is the value \<open>None\<close>.
\<close>

partial_function (option) shift_loop :: "int \<Rightarrow> int \<Rightarrow> int option" where
  "shift_loop lengthShift dictionaryLength =
     (if dictionaryLength \<noteq> 0
      then shift_loop (lengthShift + 1) (drop_bit 1 dictionaryLength)
      else Some lengthShift)"

declare shift_loop.simps [code]

section \<open>compress\<close>

subsection \<open>Match search\<close>

text \<open>
  The innermost loop (line 100):
  \<^verbatim>\<open>while ((*p1 == *p2) && (p1 < current) && (matchLength < maxMatch) && (p2 < end))\<close>.
  The source tests \<^verbatim>\<open>*p1 == *p2\<close> first; when \<^verbatim>\<open>p2 == end\<close> that reads the byte one
  past the input, and the result of the comparison is then discarded by \<^verbatim>\<open>p2 < end\<close>.
  The conjunction is written with the three bounds first, so that the model reads no byte
  outside the list; its truth value is the same.
\<close>

function match_loop :: "byte list \<Rightarrow> nat \<Rightarrow> nat \<Rightarrow> nat \<Rightarrow> nat \<Rightarrow> nat \<Rightarrow> nat" where
  "match_loop inp current maxMatch p1 p2 matchLength =
     (if p1 < current \<and> matchLength < maxMatch \<and> p2 < length inp \<and> inp ! p1 = inp ! p2
      then match_loop inp current maxMatch (p1 + 1) (p2 + 1) (matchLength + 1)
      else matchLength)"
  by pat_completeness auto
termination
  by (relation "measure (\<lambda>(inp, current, maxMatch, p1, p2, matchLength). current - p1)") auto

text \<open>
  The search loop (lines 94 to 114): \<^verbatim>\<open>while ((search + bestLength) <= current)\<close>, with
  the update rule \<^verbatim>\<open>if (matchLength >= bestLength)\<close>. It returns
  \<open>(bestLength, bestOffset)\<close>.
\<close>

function search_loop :: "byte list \<Rightarrow> nat \<Rightarrow> nat \<Rightarrow> nat \<Rightarrow> nat \<Rightarrow> nat \<Rightarrow> nat \<times> nat" where
  "search_loop inp current maxMatch search bestLength bestOffset =
     (if search + bestLength \<le> current
      then (let matchLength = match_loop inp current maxMatch search current 0
            in if matchLength \<ge> bestLength
               then search_loop inp current maxMatch (search + 1) matchLength (current - search)
               else search_loop inp current maxMatch (search + 1) bestLength bestOffset)
      else (bestLength, bestOffset))"
  by pat_completeness auto
termination
  by (relation "measure (\<lambda>(inp, current, maxMatch, search, bestLength, bestOffset).
                   Suc current - search)") auto

text \<open>
  Lines 87 to 114: the start of the window, \<^verbatim>\<open>search = current - maxOffset\<close> clamped to
  the start of the input, then the search from \<open>bestLength = 0\<close>, \<open>bestOffset = 0\<close>.
\<close>

definition window_start :: "nat \<Rightarrow> nat \<Rightarrow> nat" where
  "window_start current maxOffset =
     (if int current - int maxOffset < 0 then 0 else current - maxOffset)"

definition find_match :: "byte list \<Rightarrow> nat \<Rightarrow> nat \<Rightarrow> nat \<Rightarrow> nat \<times> nat" where
  "find_match inp current maxOffset maxMatch =
     search_loop inp current maxMatch (window_start current maxOffset) 0 0"

subsection \<open>The packer state and one iteration of the main loop\<close>

text \<open>
  The local variables of \<^verbatim>\<open>compress\<close> that live across iterations (lines 69 to 83),
  and the destination buffer.
\<close>

record cstate =
  c_next :: nat
  c_nextBits :: nat
  c_nextBytes :: nat
  c_nextStrings :: nat
  c_bits :: "32 word"
  c_bitMask :: "32 word"
  c_bytes :: "32 word"
  c_byteCount :: nat
  c_strings :: "32 word"
  c_stringCount :: nat
  c_current :: nat
  c_mem :: memory

text \<open>
  Lines 117 to 123. \<open>Inl\<close> is \<^verbatim>\<open>return false\<close>, with the state in which the
  function is left. The test is the source's pointer equality \<^verbatim>\<open>next == outputEnd\<close>,
  where \<open>outputEnd\<close> is the byte offset \<open>outputLength\<close>.
\<close>

definition reserve_bits :: "nat \<Rightarrow> cstate \<Rightarrow> cstate + cstate" where
  "reserve_bits outputEnd s =
     (if c_bitMask s = 0
      then (if c_next s = outputEnd then Inl s
            else Inr (s\<lparr>c_nextBits := c_next s, c_next := c_next s + 4,
                        c_bits := 0, c_bitMask := 1\<rparr>))
      else Inr s)"

text \<open>Lines 130 to 132 (\<open>isString\<close>) and 160 to 161 (otherwise).\<close>

definition emit_flag :: "bool \<Rightarrow> cstate \<Rightarrow> cstate" where
  "emit_flag isString s =
     (let bits = (if isString then c_bits s OR c_bitMask s else c_bits s);
          bitMask = push_bit 1 (c_bitMask s);
          s1 = s\<lparr>c_bits := bits, c_bitMask := bitMask\<rparr>
      in if bitMask = 0 then s1\<lparr>c_mem := (c_mem s1)(c_nextBits s1 := bits)\<rparr> else s1)"

text \<open>Lines 135 to 140.\<close>

definition reserve_strings :: "nat \<Rightarrow> cstate \<Rightarrow> cstate + cstate" where
  "reserve_strings outputEnd s =
     (if c_stringCount s = 0
      then (if c_next s = outputEnd then Inl s
            else Inr (s\<lparr>c_nextStrings := c_next s, c_next := c_next s + 4,
                        c_strings := 0\<rparr>))
      else Inr s)"

text \<open>Lines 143 to 154.\<close>

definition pack_string :: "nat \<Rightarrow> nat \<Rightarrow> nat \<Rightarrow> cstate \<Rightarrow> cstate" where
  "pack_string lengthShift bestLength bestOffset s =
     (let strings = c_strings s +
            push_bit (c_stringCount s * 16)
              (push_bit lengthShift (word_of_int (int bestLength - 3))
                 + word_of_int (int bestOffset - 3));
          stringCount = c_stringCount s + 1;
          s1 = s\<lparr>c_strings := strings, c_stringCount := stringCount\<rparr>;
          s2 = (if stringCount = 2
                then s1\<lparr>c_mem := (c_mem s1)(c_nextStrings s1 := strings),
                        c_stringCount := 0\<rparr>
                else s1)
      in s2\<lparr>c_current := c_current s2 + bestLength\<rparr>)"

text \<open>Lines 164 to 169.\<close>

definition reserve_bytes :: "nat \<Rightarrow> cstate \<Rightarrow> cstate + cstate" where
  "reserve_bytes outputEnd s =
     (if c_byteCount s = 0
      then (if c_next s = outputEnd then Inl s
            else Inr (s\<lparr>c_nextBytes := c_next s, c_next := c_next s + 4,
                        c_bytes := 0\<rparr>))
      else Inr s)"

text \<open>Lines 172 to 180.\<close>

definition pack_byte :: "byte list \<Rightarrow> cstate \<Rightarrow> cstate" where
  "pack_byte inp s =
     (let bytes = c_bytes s + push_bit (c_byteCount s * 8) (ucast (inp ! c_current s));
          byteCount = c_byteCount s + 1;
          s1 = s\<lparr>c_bytes := bytes, c_byteCount := byteCount, c_current := c_current s + 1\<rparr>
      in if byteCount = 4
         then s1\<lparr>c_mem := (c_mem s1)(c_nextBytes s1 := bytes), c_byteCount := 0\<rparr>
         else s1)"

text \<open>The body of the main loop (lines 87 to 181), entered with \<open>current < end\<close>.\<close>

definition compress_step ::
  "byte list \<Rightarrow> nat \<Rightarrow> nat \<Rightarrow> nat \<Rightarrow> nat \<Rightarrow> cstate \<Rightarrow> cstate + cstate" where
  "compress_step inp outputEnd maxOffset maxMatch lengthShift s =
     (case find_match inp (c_current s) maxOffset maxMatch of
        (bestLength, bestOffset) \<Rightarrow>
          (case reserve_bits outputEnd s of
             Inl s' \<Rightarrow> Inl s'
           | Inr s1 \<Rightarrow>
               if bestLength > 2
               then (case reserve_strings outputEnd (emit_flag True s1) of
                       Inl s' \<Rightarrow> Inl s'
                     | Inr s2 \<Rightarrow> Inr (pack_string lengthShift bestLength bestOffset s2))
               else (case reserve_bytes outputEnd (emit_flag False s1) of
                       Inl s' \<Rightarrow> Inl s'
                     | Inr s2 \<Rightarrow> Inr (pack_byte inp s2))))"

lemma reserve_bits_current: "reserve_bits outputEnd s = Inr s' \<Longrightarrow> c_current s' = c_current s"
  by (auto simp: reserve_bits_def split: if_splits)

lemma reserve_strings_current:
  "reserve_strings outputEnd s = Inr s' \<Longrightarrow> c_current s' = c_current s"
  by (auto simp: reserve_strings_def split: if_splits)

lemma reserve_bytes_current:
  "reserve_bytes outputEnd s = Inr s' \<Longrightarrow> c_current s' = c_current s"
  by (auto simp: reserve_bytes_def split: if_splits)

lemma emit_flag_current: "c_current (emit_flag isString s) = c_current s"
  by (simp add: emit_flag_def Let_def)

lemma pack_string_current:
  "c_current (pack_string lengthShift bestLength bestOffset s) = c_current s + bestLength"
  by (simp add: pack_string_def Let_def)

lemma pack_byte_current: "c_current (pack_byte inp s) = c_current s + 1"
  by (simp add: pack_byte_def Let_def)

lemma compress_step_current:
  assumes "compress_step inp outputEnd maxOffset maxMatch lengthShift s = Inr s'"
  shows "c_current s < c_current s'"
proof -
  obtain bestLength bestOffset
    where fm: "find_match inp (c_current s) maxOffset maxMatch = (bestLength, bestOffset)"
    by (cases "find_match inp (c_current s) maxOffset maxMatch")
  from assms fm obtain s1 where s1: "reserve_bits outputEnd s = Inr s1"
    by (auto simp: compress_step_def split: sum.splits)
  show ?thesis
  proof (cases "bestLength > 2")
    case True
    with assms fm s1 obtain s2
      where s2: "reserve_strings outputEnd (emit_flag True s1) = Inr s2"
        and s': "s' = pack_string lengthShift bestLength bestOffset s2"
      by (auto simp: compress_step_def split: sum.splits)
    from True show ?thesis
      by (simp add: s' pack_string_current reserve_strings_current [OF s2]
            emit_flag_current reserve_bits_current [OF s1])
  next
    case False
    with assms fm s1 obtain s2
      where s2: "reserve_bytes outputEnd (emit_flag False s1) = Inr s2"
        and s': "s' = pack_byte inp s2"
      by (auto simp: compress_step_def split: sum.splits)
    show ?thesis
      by (simp add: s' pack_byte_current reserve_bytes_current [OF s2]
            emit_flag_current reserve_bits_current [OF s1])
  qed
qed

subsection \<open>The main loop and the function\<close>

text \<open>\<^verbatim>\<open>while (current < end)\<close>, line 85.\<close>

function compress_loop ::
  "byte list \<Rightarrow> nat \<Rightarrow> nat \<Rightarrow> nat \<Rightarrow> nat \<Rightarrow> cstate \<Rightarrow> cstate + cstate" where
  "compress_loop inp outputEnd maxOffset maxMatch lengthShift s =
     (if c_current s < length inp
      then (case compress_step inp outputEnd maxOffset maxMatch lengthShift s of
              Inl s' \<Rightarrow> Inl s'
            | Inr s' \<Rightarrow> compress_loop inp outputEnd maxOffset maxMatch lengthShift s')
      else Inr s)"
  by pat_completeness auto
termination
proof (relation "measure (\<lambda>(inp, outputEnd, maxOffset, maxMatch, lengthShift, s).
                   length inp - c_current s)")
  show "wf (measure (\<lambda>(inp, outputEnd, maxOffset, maxMatch, lengthShift, s).
                   length inp - c_current (s :: cstate)))"
    by simp
next
  fix inp :: "byte list" and outputEnd maxOffset maxMatch lengthShift :: nat
    and s s' :: cstate
  assume "c_current s < length inp"
    and "compress_step inp outputEnd maxOffset maxMatch lengthShift s = Inr s'"
  then show "((inp, outputEnd, maxOffset, maxMatch, lengthShift, s'),
              (inp, outputEnd, maxOffset, maxMatch, lengthShift, s))
             \<in> measure (\<lambda>(inp, outputEnd, maxOffset, maxMatch, lengthShift, s).
                   length inp - c_current s)"
    using compress_step_current [of inp outputEnd maxOffset maxMatch lengthShift s s']
    by simp
qed

text \<open>Lines 50 to 52: the header, two \<^verbatim>\<open>int\<close> cells at byte offsets 0 and 4.\<close>

definition write_header :: "memory \<Rightarrow> int \<Rightarrow> int \<Rightarrow> memory" where
  "write_header output inputLength dictionaryLength =
     output(0 := word_of_int inputLength, 4 := word_of_int dictionaryLength)"

text \<open>Lines 69 to 83: the state before the first iteration.\<close>

definition compress_init :: "memory \<Rightarrow> cstate" where
  "compress_init mem =
     \<lparr>c_next = 8, c_nextBits = 0, c_nextBytes = 0, c_nextStrings = 0,
      c_bits = 0, c_bitMask = 0, c_bytes = 0, c_byteCount = 0,
      c_strings = 0, c_stringCount = 0, c_current = 0, c_mem = mem\<rparr>"

text \<open>Lines 185 to 187: what is still in the accumulators is written out.\<close>

definition flush :: "cstate \<Rightarrow> memory" where
  "flush s =
     (let m1 = (if c_bitMask s \<noteq> 0 then (c_mem s)(c_nextBits s := c_bits s) else c_mem s);
          m2 = (if c_byteCount s \<noteq> 0 then m1(c_nextBytes s := c_bytes s) else m1)
      in if c_stringCount s \<noteq> 0 then m2(c_nextStrings s := c_strings s) else m2)"

text \<open>
  The value of an arithmetic result in the 32 bits of an \<^verbatim>\<open>int\<close>, with the wrap-around of
  two's complement.
\<close>

definition to_int32 :: "int \<Rightarrow> int" where
  "to_int32 x = signed_take_bit 31 x"

text \<open>
  \<^verbatim>\<open>compress\<close>, lines 27 to 192. \<open>dictionaryLength\<close> and \<open>outputLength\<close> are the
  \<^verbatim>\<open>int\<close> parameters, values from \<open>- 2 ^ 31\<close> to \<open>2 ^ 31 - 1\<close>; \<open>inputLength\<close> is
  the length of \<open>inp\<close>. The subtraction \<^verbatim>\<open>dictionaryLength - 1\<close> of line 30 is made in
  32 bits: at the least \<^verbatim>\<open>int\<close> it wraps to the greatest one. The other sums are made
  after the checks of lines 34 and 38 and stay in range. A call of
  \<^verbatim>\<open>error\<close> is \<open>Inl\<close>: nothing has been written then. \<^verbatim>\<open>return false\<close> is the
  return value 0, with the buffer as it was left. The result is \<open>None\<close> when the call does
  not return. The returned length is the pointer difference cast to \<^verbatim>\<open>int\<close>.
\<close>

definition compress ::
  "byte list \<Rightarrow> memory \<Rightarrow> int \<Rightarrow> int \<Rightarrow> (error + int \<times> memory) option" where
  "compress inp output outputLength dictionaryLength =
     (if dictionaryLength AND to_int32 (dictionaryLength - 1) \<noteq> 0
      then Some (Inl DictionaryNotPowerOf2)
      else if dictionaryLength < 4 then Some (Inl DictionaryTooSmall)
      else if dictionaryLength > 16384 then Some (Inl DictionaryTooLarge)
      else if outputLength < 8 then Some (Inl DestinationTooSmall)
      else
        (let mem = write_header output (int (length inp)) dictionaryLength;
             maxOffset = dictionaryLength + 2;
             maxMatch = 65536 div dictionaryLength + 2
         in case shift_loop (- 1) dictionaryLength of
              None \<Rightarrow> None
            | Some lengthShift \<Rightarrow>
                (case compress_loop inp (nat outputLength) (nat maxOffset) (nat maxMatch)
                        (nat lengthShift) (compress_init mem) of
                   Inl s \<Rightarrow> Some (Inr (0, c_mem s))
                 | Inr s \<Rightarrow>
                     Some (Inr (sint (word_of_nat (c_next s) :: 32 word), flush s)))))"

section \<open>decompress\<close>

text \<open>
  The local variables of \<^verbatim>\<open>decompress\<close> that live across iterations (lines 215 to
  224). The output buffer is the list of the bytes written so far: the pointer
  \<^verbatim>\<open>buffer\<close> stands at \<open>output + length (d_buffer s)\<close>.
\<close>

record dstate =
  d_current :: nat
  d_bits :: "32 word"
  d_bytes :: "32 word"
  d_strings :: "32 word"
  d_bitMask :: "32 word"
  d_byteCount :: nat
  d_stringCount :: nat
  d_buffer :: "byte list"
  d_remaining :: "32 word"

text \<open>
  \<^verbatim>\<open>memcpy(buffer, p, length)\<close> with \<open>p = buffer - offset\<close> (lines 245 to 248). The
  C library defines its result only when the source lies in the buffer and the two ranges do
  not overlap, that is when \<open>offset\<close> is at most the number of bytes written and
  \<open>length \<le> offset\<close>; and the destination range has to lie within the
  \<open>outputBufferLength\<close> bytes of the output buffer.
\<close>

definition memcpy_back :: "int \<Rightarrow> byte list \<Rightarrow> nat \<Rightarrow> nat \<Rightarrow> error + byte list" where
  "memcpy_back outputBufferLength buf offset len =
     (if length buf < offset then Inl MemcpySourceBelowBuffer
      else if offset < len then Inl MemcpyOverlap
      else if outputBufferLength < int (length buf + len) then Inl OutputOverrun
      else Inr (buf @ take len (drop (length buf - offset) buf)))"

text \<open>Lines 228 to 232: if the bit accumulator is empty then fill it.\<close>

definition fill_bits :: "memory \<Rightarrow> dstate \<Rightarrow> dstate" where
  "fill_bits inp s =
     (if d_bitMask s = 0
      then s\<lparr>d_bits := inp (d_current s), d_current := d_current s + 4, d_bitMask := 1\<rparr>
      else s)"

text \<open>Lines 238 to 242.\<close>

definition fill_strings :: "memory \<Rightarrow> dstate \<Rightarrow> dstate" where
  "fill_strings inp s =
     (if d_stringCount s = 0
      then s\<lparr>d_strings := inp (d_current s), d_current := d_current s + 4,
             d_stringCount := 2\<rparr>
      else s)"

text \<open>Lines 245 to 252: the string is copied and the accumulator shifted.\<close>

definition copy_string ::
  "int \<Rightarrow> 32 word \<Rightarrow> nat \<Rightarrow> 32 word \<Rightarrow> dstate \<Rightarrow> error + dstate" where
  "copy_string outputBufferLength offsetMask lengthShift lengthMask s =
     (let offset = unat (d_strings s AND offsetMask) + 3;
          len = unat (signed_drop_bit lengthShift (d_strings s) AND lengthMask) + 3
      in case memcpy_back outputBufferLength (d_buffer s) offset len of
           Inl e \<Rightarrow> Inl e
         | Inr buf \<Rightarrow>
             Inr (s\<lparr>d_buffer := buf,
                    d_remaining := d_remaining s - word_of_nat len,
                    d_strings := signed_drop_bit 16 (d_strings s),
                    d_stringCount := d_stringCount s - 1\<rparr>))"

text \<open>Lines 257 to 261.\<close>

definition fill_bytes :: "memory \<Rightarrow> dstate \<Rightarrow> dstate" where
  "fill_bytes inp s =
     (if d_byteCount s = 0
      then s\<lparr>d_bytes := inp (d_current s), d_current := d_current s + 4, d_byteCount := 4\<rparr>
      else s)"

text \<open>Lines 264 to 268: the next byte is written and the accumulator shifted.\<close>

definition write_byte :: "int \<Rightarrow> dstate \<Rightarrow> error + dstate" where
  "write_byte outputBufferLength s =
     (if outputBufferLength < int (length (d_buffer s)) + 1 then Inl OutputOverrun
      else Inr (s\<lparr>d_buffer := d_buffer s @ [ucast (d_bytes s AND 0xff)],
                  d_remaining := d_remaining s - 1,
                  d_bytes := signed_drop_bit 8 (d_bytes s),
                  d_byteCount := d_byteCount s - 1\<rparr>))"

text \<open>The body of the loop, lines 227 to 272; the last line shifts the bit mask.\<close>

definition decompress_step ::
  "memory \<Rightarrow> int \<Rightarrow> 32 word \<Rightarrow> nat \<Rightarrow> 32 word \<Rightarrow> dstate \<Rightarrow> error + dstate" where
  "decompress_step inp outputBufferLength offsetMask lengthShift lengthMask s =
     (let s1 = fill_bits inp s
      in case (if d_bits s1 AND d_bitMask s1 \<noteq> 0
               then copy_string outputBufferLength offsetMask lengthShift lengthMask
                      (fill_strings inp s1)
               else write_byte outputBufferLength (fill_bytes inp s1)) of
           Inl e \<Rightarrow> Inl e
         | Inr s2 \<Rightarrow> Inr (s2\<lparr>d_bitMask := push_bit 1 (d_bitMask s2)\<rparr>))"

text \<open>
  \<^verbatim>\<open>while (remaining)\<close>, line 225. Nothing bounds the loop on a stream that steps over
  \<open>remaining = 0\<close>, so it is a partial function.
\<close>

partial_function (option) decompress_loop ::
  "memory \<Rightarrow> int \<Rightarrow> 32 word \<Rightarrow> nat \<Rightarrow> 32 word \<Rightarrow> dstate \<Rightarrow> (error + dstate) option" where
  "decompress_loop inp outputBufferLength offsetMask lengthShift lengthMask s =
     (if d_remaining s \<noteq> 0
      then (case decompress_step inp outputBufferLength offsetMask lengthShift lengthMask s of
              Inl e \<Rightarrow> Some (Inl e)
            | Inr s' \<Rightarrow>
                decompress_loop inp outputBufferLength offsetMask lengthShift lengthMask s')
      else Some (Inr s))"

declare decompress_loop.simps [code]

text \<open>Lines 198 to 200.\<close>

definition read_header :: "memory \<Rightarrow> int \<times> int" where
  "read_header inp = (sint (inp 0), sint (inp 4))"

definition decompress_init :: "int \<Rightarrow> dstate" where
  "decompress_init uncompressedLength =
     \<lparr>d_current = 8, d_bits = 0, d_bytes = 0, d_strings = 0, d_bitMask = 0,
      d_byteCount = 0, d_stringCount = 0, d_buffer = [],
      d_remaining = word_of_int uncompressedLength\<rparr>"

text \<open>
  \<^verbatim>\<open>decompress\<close>, lines 195 to 276. The result is the returned
  \<open>uncompressedLength\<close> and the bytes written to the output buffer.
\<close>

definition decompress :: "memory \<Rightarrow> int \<Rightarrow> (error + int \<times> byte list) option" where
  "decompress inp outputBufferLength =
     (case read_header inp of
        (uncompressedLength, dictionaryLength) \<Rightarrow>
          if outputBufferLength < uncompressedLength then Some (Inl DestinationTooSmall)
          else
            (let offsetMask = dictionaryLength - 1
             in case shift_loop (- 1) dictionaryLength of
                  None \<Rightarrow> None
                | Some lengthShift \<Rightarrow>
                    if lengthShift < 0 then Some (Inl NegativeShift)
                    else
                      (let lengthMask =
                             signed_drop_bit (nat lengthShift)
                               ((NOT (word_of_int offsetMask)) AND 0xffff)
                       in case decompress_loop inp outputBufferLength (word_of_int offsetMask)
                                 (nat lengthShift) lengthMask
                                 (decompress_init uncompressedLength) of
                            None \<Rightarrow> None
                          | Some (Inl e) \<Rightarrow> Some (Inl e)
                          | Some (Inr s) \<Rightarrow> Some (Inr (uncompressedLength, d_buffer s)))))"

text \<open>\<^verbatim>\<open>getDecompressedLength\<close>, lines 279 to 282.\<close>

definition getDecompressedLength :: "memory \<Rightarrow> int" where
  "getDecompressedLength inp = sint (inp 0)"

section \<open>Vocabulary of the properties\<close>

text \<open>
  The match length the search computes for the candidate start \<open>search\<close>: the inner
  loop as line 96 to 98 enter it, with \<open>p1 = search\<close>, \<open>p2 = current\<close> and
  \<open>matchLength = 0\<close>.
\<close>

definition match_length :: "byte list \<Rightarrow> nat \<Rightarrow> nat \<Rightarrow> nat \<Rightarrow> nat" where
  "match_length inp current maxMatch search = match_loop inp current maxMatch search current 0"

text \<open>
  The legal dictionary lengths: the powers of two from 4 to 16384.
\<close>

definition legal_dictionary :: "int \<Rightarrow> bool" where
  "legal_dictionary d \<longleftrightarrow> (\<exists>k\<in>{2..14::nat}. d = 2 ^ k)"

text \<open>
  The 16-bit field line 143 adds to the string accumulator.
\<close>

definition token :: "nat \<Rightarrow> nat \<Rightarrow> nat \<Rightarrow> 32 word" where
  "token lengthShift bestLength bestOffset =
     push_bit lengthShift (word_of_int (int bestLength - 3)) + word_of_int (int bestOffset - 3)"

text \<open>
  The invariant of the packer state at the head of the main loop. The flag word is open
  while \<open>bitMask\<close> is not 0: then \<open>bitMask\<close> is a single bit, the bits of the
  accumulator lie below it, and the reserved cell lies after the header and before
  \<open>next\<close>. Likewise for the byte word and the string word while their counts are not 0.
  The open cells are distinct.
\<close>

definition flag_ok :: "cstate \<Rightarrow> bool" where
  "flag_ok s \<longleftrightarrow>
     c_bitMask s = 0 \<or>
     (\<exists>j. 0 < j \<and> j < 32 \<and> c_bitMask s = 2 ^ j \<and> take_bit j (c_bits s) = c_bits s \<and>
          8 \<le> c_nextBits s \<and> c_nextBits s < c_next s)"

definition byte_ok :: "cstate \<Rightarrow> bool" where
  "byte_ok s \<longleftrightarrow>
     c_byteCount s < 4 \<and>
     (c_byteCount s \<noteq> 0 \<longrightarrow>
        take_bit (8 * c_byteCount s) (c_bytes s) = c_bytes s \<and>
        8 \<le> c_nextBytes s \<and> c_nextBytes s < c_next s)"

definition string_ok :: "cstate \<Rightarrow> bool" where
  "string_ok s \<longleftrightarrow>
     c_stringCount s < 2 \<and>
     (c_stringCount s \<noteq> 0 \<longrightarrow>
        take_bit (16 * c_stringCount s) (c_strings s) = c_strings s \<and>
        8 \<le> c_nextStrings s \<and> c_nextStrings s < c_next s)"

definition is_open :: "cstate \<Rightarrow> nat \<Rightarrow> bool" where
  "is_open s p \<longleftrightarrow>
     (c_bitMask s \<noteq> 0 \<and> p = c_nextBits s) \<or>
     (c_byteCount s \<noteq> 0 \<and> p = c_nextBytes s) \<or>
     (c_stringCount s \<noteq> 0 \<and> p = c_nextStrings s)"

definition distinct_ok :: "cstate \<Rightarrow> bool" where
  "distinct_ok s \<longleftrightarrow>
     (c_bitMask s \<noteq> 0 \<and> c_byteCount s \<noteq> 0 \<longrightarrow> c_nextBits s \<noteq> c_nextBytes s) \<and>
     (c_bitMask s \<noteq> 0 \<and> c_stringCount s \<noteq> 0 \<longrightarrow> c_nextBits s \<noteq> c_nextStrings s) \<and>
     (c_byteCount s \<noteq> 0 \<and> c_stringCount s \<noteq> 0 \<longrightarrow> c_nextBytes s \<noteq> c_nextStrings s)"

definition packer_ok :: "cstate \<Rightarrow> bool" where
  "packer_ok s \<longleftrightarrow> 8 \<le> c_next s \<and> flag_ok s \<and> byte_ok s \<and> string_ok s \<and> distinct_ok s"

text \<open>
  A final buffer \<open>M\<close> agrees with a packer state: every cell below \<open>next\<close> that is
  not open holds what the state's buffer holds, and each open cell holds the accumulator in
  the bits assigned so far.
\<close>

definition agrees :: "cstate \<Rightarrow> memory \<Rightarrow> bool" where
  "agrees s M \<longleftrightarrow>
     (\<forall>p. p < c_next s \<and> \<not> is_open s p \<longrightarrow> M p = c_mem s p) \<and>
     (c_bitMask s \<noteq> 0 \<longrightarrow> M (c_nextBits s) AND (c_bitMask s - 1) = c_bits s) \<and>
     (c_byteCount s \<noteq> 0 \<longrightarrow> take_bit (8 * c_byteCount s) (M (c_nextBytes s)) = c_bytes s) \<and>
     (c_stringCount s \<noteq> 0 \<longrightarrow> take_bit (16 * c_stringCount s) (M (c_nextStrings s)) = c_strings s)"

text \<open>
  The decoder state that corresponds to a packer state, when the decoder reads the final
  buffer \<open>M\<close>: the same read position and bit mask, the flag word in \<open>bits\<close>, and the
  byte and string accumulators shifted by the fields already consumed.
\<close>

definition sim :: "byte list \<Rightarrow> memory \<Rightarrow> cstate \<Rightarrow> dstate \<Rightarrow> bool" where
  "sim inp M s t \<longleftrightarrow>
     d_current t = c_next s \<and>
     d_bitMask t = c_bitMask s \<and>
     (c_bitMask s \<noteq> 0 \<longrightarrow> d_bits t = M (c_nextBits s)) \<and>
     d_byteCount t = (if c_byteCount s = 0 then 0 else 4 - c_byteCount s) \<and>
     (c_byteCount s \<noteq> 0 \<longrightarrow>
        d_bytes t = signed_drop_bit (8 * c_byteCount s) (M (c_nextBytes s))) \<and>
     d_stringCount t = (if c_stringCount s = 0 then 0 else 2 - c_stringCount s) \<and>
     (c_stringCount s \<noteq> 0 \<longrightarrow>
        d_strings t = signed_drop_bit (16 * c_stringCount s) (M (c_nextStrings s))) \<and>
     d_buffer t = take (c_current s) inp \<and>
     d_remaining t = word_of_nat (length inp - c_current s)"

text \<open>
  No three bytes of the input occur again, at a distance of at most \<open>maxOffset\<close>, as
  three bytes that lie wholly in the input.
\<close>

definition no_repeat :: "byte list \<Rightarrow> nat \<Rightarrow> bool" where
  "no_repeat inp maxOffset \<longleftrightarrow>
     list_all (\<lambda>c. list_all (\<lambda>s.
        \<not> (c - s \<le> maxOffset \<and> c + 3 \<le> length inp \<and>
           inp ! s = inp ! c \<and> inp ! (s + 1) = inp ! (c + 1) \<and> inp ! (s + 2) = inp ! (c + 2)))
        [0..<c]) [0..<length inp]"

text \<open>
  The size of an output made of the header, the flag words of \<open>n\<close> elements and the byte
  words of \<open>n\<close> literals.
\<close>

definition literal_size :: "nat \<Rightarrow> nat" where
  "literal_size n = 8 + 4 * ((n + 31) div 32) + 4 * ((n + 3) div 4)"

text \<open>
  The layout of an output made of literals only. The words after the header come in groups
  of nine: the flag word of 32 elements, and the eight byte words of these 32 literals, each
  reserved when its first element arrives. So the flag word number \<open>g\<close> lies at the byte
  offset \<open>8 + 36 * g\<close>, and the byte word number \<open>j\<close> in the group \<open>j div 8\<close>, after
  the flag word of the group and the \<open>j mod 8\<close> byte words before it.
\<close>

definition flag_word_cell :: "nat \<Rightarrow> nat" where
  "flag_word_cell g = 8 + 36 * g"

definition byte_word_cell :: "nat \<Rightarrow> nat" where
  "byte_word_cell j = 12 + 36 * (j div 8) + 4 * (j mod 8)"

text \<open>
  The byte word number \<open>j\<close> of an input: the bytes \<open>4 * j\<close> to \<open>4 * j + 3\<close>, the first one
  in the low 8 bits, and 0 for a byte past the end of the input.
\<close>

definition byte_at :: "byte list \<Rightarrow> nat \<Rightarrow> 32 word" where
  "byte_at inp i = (if i < length inp then ucast (inp ! i) else 0)"

definition literal_word :: "byte list \<Rightarrow> nat \<Rightarrow> 32 word" where
  "literal_word inp j =
     byte_at inp (4 * j) + push_bit 8 (byte_at inp (4 * j + 1)) +
     push_bit 16 (byte_at inp (4 * j + 2)) + push_bit 24 (byte_at inp (4 * j + 3))"

text \<open>
  A buffer in which the first \<open>flagWords\<close> flag words are 0 (every element is a literal) and
  the first \<open>byteWords\<close> byte words hold the input; and the output that the claim on inputs
  without repeats describes: the header, \<open>ceil (N / 32)\<close> flag words and \<open>ceil (N / 4)\<close> byte
  words, every other cell of the destination as it was.
\<close>

definition literal_words :: "memory \<Rightarrow> byte list \<Rightarrow> nat \<Rightarrow> nat \<Rightarrow> memory" where
  "literal_words mem inp flagWords byteWords =
     fold (\<lambda>j m. m(byte_word_cell j := literal_word inp j)) [0..<byteWords]
       (fold (\<lambda>g m. m(flag_word_cell g := 0)) [0..<flagWords] mem)"

definition literal_output :: "memory \<Rightarrow> byte list \<Rightarrow> int \<Rightarrow> memory" where
  "literal_output output inp dictionaryLength =
     literal_words (output(0 := word_of_nat (length inp), 4 := word_of_int dictionaryLength)) inp
       ((length inp + 31) div 32) ((length inp + 3) div 4)"

text \<open>
  The packer state at the head of the main loop when every element so far was a literal:
  \<open>current\<close> elements are emitted, the flag words and byte words that are complete are in
  the buffer, and the open ones are in the accumulators.
\<close>

definition literal_state :: "memory \<Rightarrow> byte list \<Rightarrow> cstate \<Rightarrow> bool" where
  "literal_state mem inp s \<longleftrightarrow>
     c_next s = literal_size (c_current s) \<and>
     c_bitMask s = (if c_current s mod 32 = 0 then 0 else 2 ^ (c_current s mod 32)) \<and>
     c_byteCount s = c_current s mod 4 \<and>
     c_stringCount s = 0 \<and>
     c_bits s = 0 \<and>
     (c_current s mod 32 \<noteq> 0 \<longrightarrow> c_nextBits s = flag_word_cell (c_current s div 32)) \<and>
     (c_current s mod 4 \<noteq> 0 \<longrightarrow>
        c_nextBytes s = byte_word_cell (c_current s div 4) \<and>
        c_bytes s = literal_word (take (c_current s) inp) (c_current s div 4)) \<and>
     c_mem s = literal_words mem inp (c_current s div 32) (c_current s div 4)"

section \<open>Properties of the match search\<close>

declare match_loop.simps [simp del] search_loop.simps [simp del]

lemma match_loop_bounds:
  "matchLength \<le> match_loop inp current maxMatch p1 p2 matchLength \<and>
   match_loop inp current maxMatch p1 p2 matchLength - matchLength \<le> current - p1 \<and>
   match_loop inp current maxMatch p1 p2 matchLength - matchLength \<le> length inp - p2 \<and>
   (matchLength \<le> maxMatch \<longrightarrow> match_loop inp current maxMatch p1 p2 matchLength \<le> maxMatch)"
proof (induction inp current maxMatch p1 p2 matchLength rule: match_loop.induct)
  case (1 inp current maxMatch p1 p2 matchLength)
  show ?case
  proof (cases "p1 < current \<and> matchLength < maxMatch \<and> p2 < length inp \<and> inp ! p1 = inp ! p2")
    case True
    then have eq: "match_loop inp current maxMatch p1 p2 matchLength =
        match_loop inp current maxMatch (p1 + 1) (p2 + 1) (matchLength + 1)"
      by (subst match_loop.simps) simp
    from "1.IH" [OF True] True show ?thesis
      unfolding eq by linarith
  next
    case False
    then have "match_loop inp current maxMatch p1 p2 matchLength = matchLength"
      by (subst match_loop.simps) auto
    then show ?thesis by simp
  qed
qed

lemma match_loop_equal:
  "k < match_loop inp current maxMatch p1 p2 matchLength - matchLength \<Longrightarrow>
   inp ! (p1 + k) = inp ! (p2 + k)"
proof (induction inp current maxMatch p1 p2 matchLength arbitrary: k rule: match_loop.induct)
  case (1 inp current maxMatch p1 p2 matchLength)
  show ?case
  proof (cases "p1 < current \<and> matchLength < maxMatch \<and> p2 < length inp \<and> inp ! p1 = inp ! p2")
    case True
    then have eq: "match_loop inp current maxMatch p1 p2 matchLength =
        match_loop inp current maxMatch (p1 + 1) (p2 + 1) (matchLength + 1)"
      by (subst match_loop.simps) simp
    show ?thesis
    proof (cases k)
      case 0
      with True show ?thesis by simp
    next
      case (Suc j)
      with "1.prems" eq
      have "j < match_loop inp current maxMatch (p1 + 1) (p2 + 1) (matchLength + 1)
                 - (matchLength + 1)"
        by simp
      from "1.IH" [OF True this] Suc show ?thesis by simp
    qed
  next
    case False
    then have "match_loop inp current maxMatch p1 p2 matchLength = matchLength"
      by (subst match_loop.simps) auto
    with "1.prems" show ?thesis by simp
  qed
qed

lemma match_length_le_offset: "match_length inp current maxMatch s \<le> current - s"
  using match_loop_bounds [of 0 inp current maxMatch s current] by (simp add: match_length_def)

lemma match_length_le_maxMatch: "match_length inp current maxMatch s \<le> maxMatch"
  using match_loop_bounds [of 0 inp current maxMatch s current] by (simp add: match_length_def)

lemma match_length_le_rest: "match_length inp current maxMatch s \<le> length inp - current"
  using match_loop_bounds [of 0 inp current maxMatch s current] by (simp add: match_length_def)

lemma match_length_equal:
  "k < match_length inp current maxMatch s \<Longrightarrow> inp ! (s + k) = inp ! (current + k)"
  using match_loop_equal [of k inp current maxMatch s current 0] by (simp add: match_length_def)

lemma search_loop_result:
  assumes "search_loop inp current maxMatch search bestLength bestOffset = (l, off)"
  shows "bestLength \<le> l \<and>
         (\<forall>s. search \<le> s \<and> s \<le> current \<longrightarrow> match_length inp current maxMatch s \<le> l) \<and>
         ((l = bestLength \<and> off = bestOffset \<and>
           (\<forall>s. search \<le> s \<and> s \<le> current \<longrightarrow> match_length inp current maxMatch s < bestLength)) \<or>
          (\<exists>s. search \<le> s \<and> s \<le> current \<and> l = match_length inp current maxMatch s \<and>
               off = current - s \<and>
               (\<forall>s'. s < s' \<and> s' \<le> current \<longrightarrow> match_length inp current maxMatch s' < l)))"
  using assms
proof (induction inp current maxMatch search bestLength bestOffset
        rule: search_loop.induct)
  case (1 inp current maxMatch search bestLength bestOffset)
  let ?m = "match_length inp current maxMatch"
  show ?case
  proof (cases "search + bestLength \<le> current")
    case False
    with "1.prems" have res: "l = bestLength" "off = bestOffset"
      by (subst (asm) search_loop.simps, simp)+
    have lt: "?m s < bestLength" if "search \<le> s" "s \<le> current" for s
      using match_length_le_offset [of inp current maxMatch s] False that by linarith
    then have "?m s \<le> bestLength" if "search \<le> s" "s \<le> current" for s
      using that by (simp add: less_imp_le)
    with res lt show ?thesis by blast
  next
    case True
    note le = True
    show ?thesis
    proof (cases "bestLength \<le> ?m search")
      case True
      with le "1.prems"
      have run: "search_loop inp current maxMatch (search + 1)
                   (match_loop inp current maxMatch search current 0) (current - search)
                   = (l, off)"
        by (subst (asm) search_loop.simps) (simp add: match_length_def Let_def)
      from "1.IH"(1) [OF le refl _ run] True
      have ih: "?m search \<le> l"
        "\<forall>s. search + 1 \<le> s \<and> s \<le> current \<longrightarrow> ?m s \<le> l"
        "(l = ?m search \<and> off = current - search \<and>
           (\<forall>s. search + 1 \<le> s \<and> s \<le> current \<longrightarrow> ?m s < ?m search)) \<or>
          (\<exists>s. search + 1 \<le> s \<and> s \<le> current \<and> l = ?m s \<and> off = current - s \<and>
               (\<forall>s'. s < s' \<and> s' \<le> current \<longrightarrow> ?m s' < l))"
        by (simp_all add: match_length_def)
      have a: "bestLength \<le> l" using True ih(1) by simp
      have b: "?m s \<le> l" if "search \<le> s" "s \<le> current" for s
      proof (cases "s = search")
        case True with ih(1) show ?thesis by simp
      next
        case False with that ih(2) show ?thesis by simp
      qed
      have c: "\<exists>s. search \<le> s \<and> s \<le> current \<and> l = ?m s \<and> off = current - s \<and>
               (\<forall>s'. s < s' \<and> s' \<le> current \<longrightarrow> ?m s' < l)"
        using ih(3)
      proof
        assume h: "l = ?m search \<and> off = current - search \<and>
           (\<forall>s. search + 1 \<le> s \<and> s \<le> current \<longrightarrow> ?m s < ?m search)"
        show ?thesis
          by (rule exI [of _ search]) (use h le in auto)
      next
        assume "\<exists>s. search + 1 \<le> s \<and> s \<le> current \<and> l = ?m s \<and> off = current - s \<and>
               (\<forall>s'. s < s' \<and> s' \<le> current \<longrightarrow> ?m s' < l)"
        then obtain s where "search + 1 \<le> s" "s \<le> current" "l = ?m s" "off = current - s"
            "\<forall>s'. s < s' \<and> s' \<le> current \<longrightarrow> ?m s' < l"
          by blast
        then show ?thesis
          by (intro exI [of _ s]) simp
      qed
      from a b c show ?thesis by blast
    next
      case False
      with le "1.prems"
      have run: "search_loop inp current maxMatch (search + 1) bestLength bestOffset = (l, off)"
        by (subst (asm) search_loop.simps) (simp add: match_length_def Let_def)
      from "1.IH"(2) [OF le refl _ run] False
      have ih: "bestLength \<le> l"
        "\<forall>s. search + 1 \<le> s \<and> s \<le> current \<longrightarrow> ?m s \<le> l"
        "(l = bestLength \<and> off = bestOffset \<and>
           (\<forall>s. search + 1 \<le> s \<and> s \<le> current \<longrightarrow> ?m s < bestLength)) \<or>
          (\<exists>s. search + 1 \<le> s \<and> s \<le> current \<and> l = ?m s \<and> off = current - s \<and>
               (\<forall>s'. s < s' \<and> s' \<le> current \<longrightarrow> ?m s' < l))"
        by (simp_all add: match_length_def)
      have b: "?m s \<le> l" if "search \<le> s" "s \<le> current" for s
      proof (cases "s = search")
        case True with ih(1) False show ?thesis by simp
      next
        case False with that ih(2) show ?thesis by simp
      qed
      have c: "(l = bestLength \<and> off = bestOffset \<and>
           (\<forall>s. search \<le> s \<and> s \<le> current \<longrightarrow> ?m s < bestLength)) \<or>
          (\<exists>s. search \<le> s \<and> s \<le> current \<and> l = ?m s \<and> off = current - s \<and>
               (\<forall>s'. s < s' \<and> s' \<le> current \<longrightarrow> ?m s' < l))"
        using ih(3)
      proof
        assume h: "l = bestLength \<and> off = bestOffset \<and>
           (\<forall>s. search + 1 \<le> s \<and> s \<le> current \<longrightarrow> ?m s < bestLength)"
        have "?m s < bestLength" if "search \<le> s" "s \<le> current" for s
        proof (cases "s = search")
          case True with False show ?thesis by simp
        next
          case False with that h show ?thesis by simp
        qed
        with h show ?thesis by blast
      next
        assume "\<exists>s. search + 1 \<le> s \<and> s \<le> current \<and> l = ?m s \<and> off = current - s \<and>
               (\<forall>s'. s < s' \<and> s' \<le> current \<longrightarrow> ?m s' < l)"
        then obtain s where "search + 1 \<le> s" "s \<le> current" "l = ?m s" "off = current - s"
            "\<forall>s'. s < s' \<and> s' \<le> current \<longrightarrow> ?m s' < l"
          by blast
        then have "\<exists>s. search \<le> s \<and> s \<le> current \<and> l = ?m s \<and> off = current - s \<and>
               (\<forall>s'. s < s' \<and> s' \<le> current \<longrightarrow> ?m s' < l)"
          by (intro exI [of _ s]) simp
        then show ?thesis ..
      qed
      from ih(1) b c show ?thesis by blast
    qed
  qed
qed

section \<open>Dictionary lengths\<close>

lemma shift_loop_power: "shift_loop ls (2 ^ k) = Some (ls + 1 + int k)"
proof (induction k arbitrary: ls)
  case 0
  show ?case
    by (subst shift_loop.simps, subst shift_loop.simps) simp
next
  case (Suc k)
  have "shift_loop ls (2 ^ Suc k) = shift_loop (ls + 1) (2 ^ k)"
    by (subst shift_loop.simps) (simp add: drop_bit_Suc)
  then show ?case by (simp add: Suc)
qed

lemma power_and_pred: "(2 ^ k :: int) AND (2 ^ k - 1) = 0"
  by (metis cancel_comm_monoid_add_class.diff_cancel mask_eq_exp_minus_1
    push_bit_eq_0_iff push_bit_of_1 take_bit_0 take_bit_eq_mask
    take_bit_push_bit)

lemma to_int32_id: "- (2 ^ 31) \<le> x \<Longrightarrow> x < 2 ^ 31 \<Longrightarrow> to_int32 x = x"
  unfolding to_int32_def by (rule signed_take_bit_int_eq_self) simp_all

lemma and_pred_power:
  assumes "0 < d" "d AND (d - 1) = 0"
  shows "\<exists>k. d = (2::int) ^ k"
  using assms
proof (induction "nat d" arbitrary: d rule: less_induct)
  case less
  show ?case
  proof (cases "d = 1")
    case True
    then have "d = 2 ^ 0" by simp
    then show ?thesis by blast
  next
    case False
    have ev: "even d"
    proof (rule ccontr)
      assume "odd d"
      then obtain m where m: "d = 2 * m + 1" by (auto elim: oddE)
      with less.prems False have "m > 0" by simp
      have "d AND (d - 1) = 2 * m" 
        unfolding m by (subst and_rec) simp
      with less.prems \<open>m > 0\<close> show False by simp
    qed
    then obtain m where m: "d = 2 * m" by (auto elim: evenE)
    have "(2 * m - 1) div 2 = m - 1" by linarith
    then have "(2 * m) AND (2 * m - 1) = 2 * (m AND (m - 1))"
      by (subst and_rec) simp
    then have "m AND (m - 1) = 0" using less.prems(2) unfolding m by simp
    moreover have "0 < m" "nat m < nat d" using less.prems m by auto
    ultimately obtain k where "m = 2 ^ k" using less.hyps by blast
    then have "d = 2 ^ Suc k" using m by simp
    then show ?thesis by blast
  qed
qed

lemma and_pred_negative: "d < 0 \<Longrightarrow> d AND (d - 1) \<noteq> (0::int)"
  by (metis and_negative_int_iff diff_strict_mono zero_less_one minus_int_code(1) less_int_code(1))

lemma legal_dictionary_iff:
  "legal_dictionary d \<longleftrightarrow> (\<exists>k::nat. d = 2 ^ k) \<and> 4 \<le> d \<and> d \<le> 16384"
proof
  assume "legal_dictionary d"
  then obtain k :: nat where k: "d = 2 ^ k" "2 \<le> k" "k \<le> 14"
    by (auto simp: legal_dictionary_def)
  have "(2::int) ^ 2 \<le> 2 ^ k" "(2::int) ^ k \<le> 2 ^ 14"
    using k by (simp_all only: power_increasing_iff one_less_numeral_iff semiring_norm)
  with k show "(\<exists>k::nat. d = 2 ^ k) \<and> 4 \<le> d \<and> d \<le> 16384" by auto
next
  assume "(\<exists>k::nat. d = 2 ^ k) \<and> 4 \<le> d \<and> d \<le> 16384"
  then obtain k :: nat where k: "d = 2 ^ k" and "(2::int) ^ 2 \<le> 2 ^ k" "(2::int) ^ k \<le> 2 ^ 14"
    by auto
  then have "2 \<le> k" "k \<le> 14"
    by (simp_all only: power_increasing_iff one_less_numeral_iff semiring_norm)
  with k show "legal_dictionary d" by (auto simp: legal_dictionary_def)
qed

lemma window_start_le: "window_start current maxOffset \<le> current"
  by (simp add: window_start_def)

lemma window_start_offset: "current - window_start current maxOffset \<le> maxOffset"
  by (simp add: window_start_def)

lemma find_match_result:
  assumes "find_match inp current maxOffset maxMatch = (l, off)"
  shows "\<exists>s. window_start current maxOffset \<le> s \<and> s \<le> current \<and>
             l = match_length inp current maxMatch s \<and> off = current - s \<and>
             (\<forall>s'. s < s' \<and> s' \<le> current \<longrightarrow> match_length inp current maxMatch s' < l) \<and>
             (\<forall>s'. window_start current maxOffset \<le> s' \<and> s' \<le> current \<longrightarrow>
                   match_length inp current maxMatch s' \<le> l)"
proof -
  let ?w = "window_start current maxOffset"
  from search_loop_result [OF assms [unfolded find_match_def]]
  have all: "\<forall>s. ?w \<le> s \<and> s \<le> current \<longrightarrow> match_length inp current maxMatch s \<le> l"
    and alt: "(l = 0 \<and> off = 0 \<and>
           (\<forall>s. ?w \<le> s \<and> s \<le> current \<longrightarrow> match_length inp current maxMatch s < 0)) \<or>
          (\<exists>s. ?w \<le> s \<and> s \<le> current \<and> l = match_length inp current maxMatch s \<and>
               off = current - s \<and>
               (\<forall>s'. s < s' \<and> s' \<le> current \<longrightarrow> match_length inp current maxMatch s' < l))"
    by blast+
  from alt show ?thesis
  proof
    assume "l = 0 \<and> off = 0 \<and>
           (\<forall>s. ?w \<le> s \<and> s \<le> current \<longrightarrow> match_length inp current maxMatch s < 0)"
    then have "match_length inp current maxMatch current < 0"
      using window_start_le [of current maxOffset] by blast
    then show ?thesis by simp
  next
    assume "\<exists>s. ?w \<le> s \<and> s \<le> current \<and> l = match_length inp current maxMatch s \<and>
               off = current - s \<and>
               (\<forall>s'. s < s' \<and> s' \<le> current \<longrightarrow> match_length inp current maxMatch s' < l)"
    with all show ?thesis by blast
  qed
qed

text \<open>What every result of the search satisfies.\<close>

lemma find_match_bounds:
  assumes "find_match inp current maxOffset maxMatch = (l, off)"
  shows "l \<le> off" "off \<le> current" "off \<le> maxOffset" "l \<le> maxMatch"
    "l \<le> length inp - current"
    "\<And>k. k < l \<Longrightarrow> inp ! (current - off + k) = inp ! (current + k)"
proof -
  from find_match_result [OF assms] obtain s
    where s: "window_start current maxOffset \<le> s" "s \<le> current"
      "l = match_length inp current maxMatch s" "off = current - s"
    by blast
  show "l \<le> off" using s match_length_le_offset [of inp current maxMatch s] by simp
  show "off \<le> current" using s by simp
  show "off \<le> maxOffset" using s window_start_offset [of current maxOffset] by linarith
  show "l \<le> maxMatch" using s match_length_le_maxMatch [of inp current maxMatch s] by simp
  show "l \<le> length inp - current"
    using s match_length_le_rest [of inp current maxMatch s] by simp
  show "inp ! (current - off + k) = inp ! (current + k)" if "k < l" for k
    using that s match_length_equal [of k inp current maxMatch s] by simp
qed

section \<open>Bits of the accumulators\<close>

lemma mask_pred: "(2 ^ j :: 32 word) - 1 = mask j"
  by (simp add: mask_eq_exp_minus_1)

lemma and_pred_take_bit: "w AND ((2 ^ j :: 32 word) - 1) = take_bit j w"
  by (simp add: mask_eq_exp_minus_1 [symmetric] take_bit_eq_mask)

lemma exp_ne_0: "j < 32 \<Longrightarrow> (2 ^ j :: 32 word) \<noteq> 0"
  by simp

lemma push_exp: "push_bit 1 (2 ^ j :: 32 word) = 2 ^ Suc j"
  by (simp add: push_bit_eq_mult)

lemma exp_32: "(2 ^ 32 :: 32 word) = 0"
  by simp

lemma exp_eq_0_iff: "(2 ^ j :: 32 word) = 0 \<longleftrightarrow> 32 \<le> j"
  by simp

lemma take_bit_idD: "take_bit n w = w \<Longrightarrow> bit w i \<Longrightarrow> i < n"
  by (metis bit_take_bit_iff)

lemma take_bit_eqD: "take_bit n w = x \<Longrightarrow> i < n \<Longrightarrow> bit w i = bit x i"
  by (metis bit_take_bit_iff)

text \<open>flag channel\<close>
lemma flag_bound:
  assumes "take_bit j bits = (bits :: 32 word)"
  shows "take_bit (Suc j) (bits OR 2 ^ j) = bits OR 2 ^ j" "take_bit (Suc j) bits = bits"
  by (rule bit_eqI; use take_bit_idD [OF assms] in \<open>auto simp: bit_simps dest: less_SucI\<close>)+

lemma flag_back:
  assumes "take_bit j bits = (bits :: 32 word)" "take_bit (Suc j) w = (if b then bits OR 2 ^ j else bits)"
  shows "take_bit j w = bits"
proof (rule bit_eqI)
  fix i
  show "bit (take_bit j w) i = bit bits i"
  proof (cases "i < j")
    case True
    then have "bit w i = bit (if b then bits OR 2 ^ j else bits) i"
      using take_bit_eqD [OF assms(2), of i] by simp
    with True show ?thesis by (auto simp: bit_simps)
  next
    case False
    with take_bit_idD [OF assms(1), of i] show ?thesis by (auto simp: bit_simps)
  qed
qed

lemma flag_decode:
  assumes "take_bit j bits = (bits :: 32 word)" "take_bit (Suc j) w = (if b then bits OR 2 ^ j else bits)" "j < 32"
  shows "(w AND 2 ^ j \<noteq> 0) = b"
proof -
  have "bit w j = bit (if b then bits OR 2 ^ j else bits) j"
    using take_bit_eqD [OF assms(2), of j] by simp
  also have "\<dots> = b"
    using take_bit_idD [OF assms(1), of j] assms(3) by (auto simp: bit_simps)
  finally have "bit w j = b" .
  moreover have "(w AND 2 ^ j \<noteq> 0) = bit w j"
    by (simp add: and_exp_eq_0_iff_not_bit)
  ultimately show ?thesis by simp
qed

text \<open>Packing fields of a fixed width into a word\<close>

lemma field_sum:
  assumes "take_bit (wd * k) acc = (acc :: 32 word)"
  shows "acc + push_bit (k * wd) v = acc OR push_bit (wd * k) v"
proof -
  have "\<not> bit acc n \<or> \<not> bit (push_bit (k * wd) v) n" for n
    using take_bit_idD [OF assms, of n] by (auto simp: bit_simps mult.commute)
  then show ?thesis by (simp add: disjunctive_add mult.commute)
qed

lemma field_bound:
  assumes "take_bit (wd * k) acc = (acc :: 32 word)" "take_bit wd v = v"
  shows "take_bit (wd * Suc k) (acc + push_bit (k * wd) v) = acc + push_bit (k * wd) v"
  unfolding field_sum [OF assms(1)]
proof (rule bit_eqI)
  fix i
  show "bit (take_bit (wd * Suc k) (acc OR push_bit (wd * k) v)) i
        = bit (acc OR push_bit (wd * k) v) i"
    using take_bit_idD [OF assms(1), of i] take_bit_idD [OF assms(2), of "i - wd * k"]
    by (auto simp: bit_simps)
qed

lemma field_back:
  assumes "take_bit (wd * k) acc = (acc :: 32 word)"
    "take_bit (wd * Suc k) w = acc + push_bit (k * wd) v"
  shows "take_bit (wd * k) w = acc"
proof (rule bit_eqI)
  fix i
  show "bit (take_bit (wd * k) w) i = bit acc i"
  proof (cases "i < wd * k")
    case True
    then have "bit w i = bit (acc OR push_bit (wd * k) v) i"
      using take_bit_eqD [OF assms(2) [unfolded field_sum [OF assms(1)]], of i] by simp
    with True show ?thesis by (auto simp: bit_simps)
  next
    case False
    with take_bit_idD [OF assms(1), of i] show ?thesis by (auto simp: bit_simps)
  qed
qed

lemma field_decode:
  assumes "take_bit (wd * k) acc = (acc :: 32 word)" "take_bit wd v = v"
    "take_bit (wd * Suc k) w = acc + push_bit (k * wd) v" "wd * Suc k \<le> 32"
  shows "take_bit wd (signed_drop_bit (wd * k) w) = v"
proof (rule bit_eqI)
  fix i
  show "bit (take_bit wd (signed_drop_bit (wd * k) w)) i = bit v i"
  proof (cases "i < wd")
    case True
    then have lt: "wd * k + i < wd * Suc k" by simp
    with assms(4) have lt32: "wd * k + i < 32" by linarith
    have "bit w (wd * k + i) = bit (acc OR push_bit (wd * k) v) (wd * k + i)"
      using take_bit_eqD [OF assms(3) [unfolded field_sum [OF assms(1)]] lt] .
    also have "\<dots> = bit v i"
      using take_bit_idD [OF assms(1), of "wd * k + i"] lt32 by (auto simp: bit_simps)
    finally have "bit w (wd * k + i) = bit v i" .
    moreover have "bit (signed_drop_bit (wd * k) w) i = bit w (wd * k + i)"
      using lt32 True assms(4) by (auto simp: bit_signed_drop_bit_iff)
    ultimately show ?thesis using True by (simp add: bit_simps)
  next
    case False
    with take_bit_idD [OF assms(2), of i] show ?thesis by (auto simp: bit_simps)
  qed
qed

lemma ucast_byte_bound: "take_bit 8 (ucast (b :: 8 word) :: 32 word) = ucast b"
  by (rule bit_eqI) (auto simp: bit_simps dest: bit_imp_le_length)

lemma byte_decode:
  assumes "take_bit 8 x = (ucast (b :: 8 word) :: 32 word)"
  shows "(ucast (x AND 0xff) :: 8 word) = b"
proof -
  have "(0xff :: 32 word) = mask 8" by (simp add: mask_eq_exp_minus_1)
  then have "x AND 0xff = ucast b" using assms by (simp add: take_bit_eq_mask)
  moreover have "(ucast (ucast b :: 32 word) :: 8 word) = b"
    by (rule bit_eqI) (auto simp: bit_simps dest: bit_imp_le_length)
  ultimately show ?thesis by simp
qed

text \<open>token fields\<close>

lemma word_of_nat_bound:
  assumes "n < (2::nat) ^ m"
  shows "take_bit m (word_of_nat n :: 32 word) = word_of_nat n"
proof -
  have "take_bit m n = n" using assms by (simp add: take_bit_nat_eq_self)
  then show ?thesis by (simp add: take_bit_of_nat)
qed

lemma unat_word_of_nat_small:
  assumes "n < (2::nat) ^ m" "m \<le> 16"
  shows "unat (word_of_nat n :: 32 word) = n"
proof -
  have "(2::nat) ^ m \<le> 2 ^ 16" by (rule power_increasing) (use assms(2) in simp_all)
  with assms(1) have "n < 2 ^ 32" by simp
  then show ?thesis by (simp add: unat_of_nat)
qed

lemma token_sum:
  assumes "offv < (2::nat) ^ ls"
  shows "(push_bit ls (word_of_nat lenv) + word_of_nat offv :: 32 word) =
           push_bit ls (word_of_nat lenv) OR word_of_nat offv"
proof -
  have "\<not> bit (push_bit ls (word_of_nat lenv :: 32 word)) n \<or> \<not> bit (word_of_nat offv :: 32 word) n" for n
    using take_bit_idD [OF word_of_nat_bound [OF assms], of n] by (auto simp: bit_simps)
  then show ?thesis by (rule disjunctive_add)
qed

lemma token_bound:
  assumes "ls \<le> 16" "lenv < 2 ^ (16 - ls)" "offv < (2::nat) ^ ls"
  shows "take_bit 16 (push_bit ls (word_of_nat lenv) + word_of_nat offv :: 32 word) =
           push_bit ls (word_of_nat lenv) + word_of_nat offv"
  unfolding token_sum [OF assms(3)]
proof (rule bit_eqI)
  fix i
  show "bit (take_bit 16 (push_bit ls (word_of_nat lenv) OR word_of_nat offv :: 32 word)) i
      = bit (push_bit ls (word_of_nat lenv) OR word_of_nat offv :: 32 word) i"
    using take_bit_idD [OF word_of_nat_bound [OF assms(3)], of i]
      take_bit_idD [OF word_of_nat_bound [OF assms(2)], of "i - ls"] assms(1)
    by (auto simp: bit_simps)
qed

lemma token_offset:
  assumes "ls \<le> 16" "lenv < 2 ^ (16 - ls)" "offv < (2::nat) ^ ls"
     "take_bit 16 w = (push_bit ls (word_of_nat lenv) + word_of_nat offv :: 32 word)"
  shows "unat (w AND word_of_int (2 ^ ls - 1)) = offv"
proof -
  have m: "(word_of_int (2 ^ ls - 1) :: 32 word) = mask ls"
    by (simp add: mask_eq_exp_minus_1)
  have "take_bit ls w = (word_of_nat offv :: 32 word)"
  proof (rule bit_eqI)
    fix i
    show "bit (take_bit ls w) i = bit (word_of_nat offv :: 32 word) i"
    proof (cases "i < ls")
      case True
      with assms(1) have "i < 16" by simp
      from take_bit_eqD [OF assms(4) [unfolded token_sum [OF assms(3)]] this] True
      show ?thesis by (auto simp: bit_simps)
    next
      case False
      with take_bit_idD [OF word_of_nat_bound [OF assms(3)], of i]
      show ?thesis by (auto simp: bit_simps)
    qed
  qed
  then show ?thesis
    using unat_word_of_nat_small [OF assms(3) assms(1)]
    by (simp add: take_bit_eq_mask mask_eq_exp_minus_1)
qed

lemma length_mask: 
  assumes "ls \<le> 16"
  shows "signed_drop_bit ls ((NOT (word_of_int (2 ^ ls - 1))) AND 0xffff) = (mask (16 - ls) :: 32 word)"
proof -
  have m: "(word_of_int (2 ^ ls - 1) :: 32 word) = mask ls"
    by (simp add: mask_eq_exp_minus_1)
  have f: "(0xffff :: 32 word) = mask 16" by (simp add: mask_eq_exp_minus_1)
  show ?thesis unfolding m f
    by (rule bit_eqI) (use assms in \<open>auto simp: bit_simps bit_signed_drop_bit_iff\<close>)
qed

lemma token_length:
  assumes "ls \<le> 16" "lenv < 2 ^ (16 - ls)" "offv < (2::nat) ^ ls"
     "take_bit 16 w = (push_bit ls (word_of_nat lenv) + word_of_nat offv :: 32 word)"
  shows "unat (signed_drop_bit ls w AND signed_drop_bit ls ((NOT (word_of_int (2 ^ ls - 1))) AND 0xffff)) = lenv"
proof -
  have "take_bit (16 - ls) (signed_drop_bit ls w) = (word_of_nat lenv :: 32 word)"
  proof (rule bit_eqI)
    fix i
    show "bit (take_bit (16 - ls) (signed_drop_bit ls w)) i = bit (word_of_nat lenv :: 32 word) i"
    proof (cases "i < 16 - ls")
      case True
      then have lt: "ls + i < 16" by simp
      have "bit (signed_drop_bit ls w) i = bit w (ls + i)"
        using lt by (auto simp: bit_signed_drop_bit_iff)
      also have "\<dots> = bit (push_bit ls (word_of_nat lenv) OR word_of_nat offv :: 32 word) (ls + i)"
        using take_bit_eqD [OF assms(4) [unfolded token_sum [OF assms(3)]] lt] .
      also have "\<dots> = bit (word_of_nat lenv :: 32 word) i"
        using take_bit_idD [OF word_of_nat_bound [OF assms(3)], of "ls + i"] lt
        by (auto simp: bit_simps)
      finally show ?thesis using True by (simp add: bit_simps)
    next
      case False
      with take_bit_idD [OF word_of_nat_bound [OF assms(2)], of i]
      show ?thesis by (auto simp: bit_simps)
    qed
  qed
  then have "signed_drop_bit ls w AND
      signed_drop_bit ls ((NOT (word_of_int (2 ^ ls - 1))) AND 0xffff) = word_of_nat lenv"
    by (simp only: length_mask [OF assms(1)] take_bit_eq_mask)
  moreover have "16 - ls \<le> 16" by simp
  ultimately show ?thesis
    using unat_word_of_nat_small [OF assms(2)] by (simp only:)
qed

section \<open>The packer and the decoder in step\<close>

text \<open>The flag channel: lines 117 to 123 followed by 130 to 132 or 160 to 161.\<close>

lemma exp_times_2: "(2 ^ j :: 32 word) * 2 = 2 ^ Suc j"
  by simp

lemma flag_step_closed:
  assumes "c_bitMask s = 0" "reserve_bits outputEnd s = Inr s1"
  shows "emit_flag b s1 =
         s\<lparr>c_nextBits := c_next s, c_next := c_next s + 4,
           c_bits := (if b then 1 else 0), c_bitMask := 2 ^ 1\<rparr>"
  using assms by (auto simp: reserve_bits_def emit_flag_def Let_def split: if_splits)

lemma flag_step_open:
  assumes "c_bitMask s = 2 ^ j" "j < 31" "reserve_bits outputEnd s = Inr s1"
  shows "emit_flag b s1 =
         s\<lparr>c_bits := (if b then c_bits s OR 2 ^ j else c_bits s), c_bitMask := 2 ^ Suc j\<rparr>"
  using assms by (auto simp: reserve_bits_def emit_flag_def Let_def exp_times_2 simp del: power_Suc split: if_splits)

lemma flag_step_full:
  assumes "c_bitMask s = 2 ^ 31" "reserve_bits outputEnd s = Inr s1"
  shows "emit_flag b s1 =
         s\<lparr>c_bits := (if b then c_bits s OR 2 ^ 31 else c_bits s), c_bitMask := 0,
           c_mem := (c_mem s)(c_nextBits s := (if b then c_bits s OR 2 ^ 31 else c_bits s))\<rparr>"
  using assms by (auto simp: reserve_bits_def emit_flag_def Let_def exp_times_2 simp del: power_Suc split: if_splits)

lemma flag_okE:
  assumes "flag_ok s"
  obtains (closed) "c_bitMask s = 0"
  | (opened) j where "0 < j" "j < 31" "c_bitMask s = 2 ^ j" "take_bit j (c_bits s) = c_bits s"
      "8 \<le> c_nextBits s" "c_nextBits s < c_next s"
  | (full) "c_bitMask s = 2 ^ 31" "take_bit 31 (c_bits s) = c_bits s"
      "8 \<le> c_nextBits s" "c_nextBits s < c_next s"
proof -
  from assms consider "c_bitMask s = 0"
    | j where "0 < j" "j < 32" "c_bitMask s = 2 ^ j" "take_bit j (c_bits s) = c_bits s"
      "8 \<le> c_nextBits s" "c_nextBits s < c_next s"
    unfolding flag_ok_def by blast
  then show thesis
  proof cases
    case 1
    then show ?thesis by (rule closed)
  next
    case (2 j)
    show ?thesis
    proof (cases "j = 31")
      case True
      with 2 show ?thesis by (intro full) simp_all
    next
      case False
      with 2 have "j < 31" by simp
      with 2 show ?thesis by (intro opened [of j]) simp_all
    qed
  qed
qed

lemma flag_step_ok:
  assumes "packer_ok s" "reserve_bits outputEnd s = Inr s1"
  shows "packer_ok (emit_flag b s1)"
proof -
  from assms(1) have ok: "8 \<le> c_next s" "flag_ok s" "byte_ok s" "string_ok s" "distinct_ok s"
    by (simp_all add: packer_ok_def)
  from ok(2) show ?thesis
  proof (cases rule: flag_okE)
    case closed
    have "flag_ok (emit_flag b s1)"
      unfolding flag_step_closed [OF closed assms(2)] flag_ok_def
      using ok(1) by (intro disjI2 exI [of _ 1]) (auto simp: take_bit_Suc)
    moreover have "byte_ok (emit_flag b s1)" "string_ok (emit_flag b s1)"
      "distinct_ok (emit_flag b s1)"
      unfolding flag_step_closed [OF closed assms(2)]
      using ok closed by (auto simp: byte_ok_def string_ok_def distinct_ok_def)
    ultimately show ?thesis
      using ok(1) by (simp add: packer_ok_def flag_step_closed [OF closed assms(2)])
  next
    case (opened j)
    have "flag_ok (emit_flag b s1)"
      unfolding flag_step_open [OF opened(3,2) assms(2)] flag_ok_def
      using opened flag_bound [OF opened(4)]
      by (intro disjI2 exI [of _ "Suc j"]) (auto simp del: power_Suc)
    moreover have "byte_ok (emit_flag b s1)" "string_ok (emit_flag b s1)"
      "distinct_ok (emit_flag b s1)"
      unfolding flag_step_open [OF opened(3,2) assms(2)]
      using ok opened by (auto simp: byte_ok_def string_ok_def distinct_ok_def simp del: power_Suc)
    ultimately show ?thesis
      using ok(1) by (simp add: packer_ok_def flag_step_open [OF opened(3,2) assms(2)])
  next
    case full
    have "flag_ok (emit_flag b s1)" "byte_ok (emit_flag b s1)" "string_ok (emit_flag b s1)"
      "distinct_ok (emit_flag b s1)"
      unfolding flag_step_full [OF full(1) assms(2)]
      using ok by (auto simp: flag_ok_def byte_ok_def string_ok_def distinct_ok_def)
    then show ?thesis
      using ok(1) by (simp add: packer_ok_def flag_step_full [OF full(1) assms(2)])
  qed
qed

lemma flag_step_frame:
  assumes "reserve_bits outputEnd s = Inr s1"
  shows "c_current (emit_flag b s1) = c_current s"
    "c_byteCount (emit_flag b s1) = c_byteCount s"
    "c_bytes (emit_flag b s1) = c_bytes s"
    "c_nextBytes (emit_flag b s1) = c_nextBytes s"
    "c_stringCount (emit_flag b s1) = c_stringCount s"
    "c_strings (emit_flag b s1) = c_strings s"
    "c_nextStrings (emit_flag b s1) = c_nextStrings s"
    "c_next (emit_flag b s1) = (if c_bitMask s = 0 then c_next s + 4 else c_next s)"
    "c_nextBits (emit_flag b s1) = (if c_bitMask s = 0 then c_next s else c_nextBits s)"
    "c_bitMask (emit_flag b s1) = push_bit 1 (if c_bitMask s = 0 then 1 else c_bitMask s)"
  using assms by (auto simp: reserve_bits_def emit_flag_def Let_def split: if_splits)

lemma flag_step_agrees:
  assumes "packer_ok s" "reserve_bits outputEnd s = Inr s1" "agrees (emit_flag b s1) M"
  shows "agrees s M"
    and "(M (if c_bitMask s = 0 then c_next s else c_nextBits s) AND
            (if c_bitMask s = 0 then 1 else c_bitMask s) \<noteq> 0) = b"
proof -
  from assms(1) have ok: "8 \<le> c_next s" "flag_ok s" "byte_ok s" "string_ok s" "distinct_ok s"
    by (simp_all add: packer_ok_def)
  from ok(2) have "agrees s M \<and>
     (M (if c_bitMask s = 0 then c_next s else c_nextBits s) AND
            (if c_bitMask s = 0 then 1 else c_bitMask s) \<noteq> 0) = b"
  proof (cases rule: flag_okE)
    case closed
    note ag = assms(3) [unfolded flag_step_closed [OF closed assms(2)] agrees_def]
    have w: "take_bit (Suc 0) (M (c_next s)) = (if b then 0 OR 2 ^ 0 else 0)"
      using ag by (simp add: and_pred_take_bit [of _ 1, simplified])
    have cl: "M p = c_mem s p" if "p < c_next s" "\<not> is_open s p" for p
    proof -
      have "\<not> is_open (s\<lparr>c_nextBits := c_next s, c_next := c_next s + 4,
           c_bits := (if b then 1 else 0), c_bitMask := 2 ^ 1\<rparr>) p"
        using that closed by (auto simp: is_open_def)
      with ag that show ?thesis by auto
    qed
    have "agrees s M"
      unfolding agrees_def using cl ag closed by auto
    moreover have "(M (c_next s) AND 2 ^ 0 \<noteq> 0) = b"
      by (rule flag_decode [OF _ w]) simp_all
    ultimately show ?thesis using closed by simp
  next
    case (opened j)
    note ag = assms(3) [unfolded flag_step_open [OF opened(3,2) assms(2)] agrees_def]
    have w: "take_bit (Suc j) (M (c_nextBits s)) = (if b then c_bits s OR 2 ^ j else c_bits s)"
      using ag opened by (simp add: and_pred_take_bit del: power_Suc)
    have cl: "M p = c_mem s p" if "p < c_next s" "\<not> is_open s p" for p
    proof -
      have "\<not> is_open (s\<lparr>c_bits := (if b then c_bits s OR 2 ^ j else c_bits s),
               c_bitMask := 2 ^ Suc j\<rparr>) p"
        using that opened by (auto simp: is_open_def simp del: power_Suc)
      with ag that show ?thesis by auto
    qed
    have "M (c_nextBits s) AND (c_bitMask s - 1) = c_bits s"
      unfolding opened(3) and_pred_take_bit using flag_back [OF opened(4) w] .
    then have "agrees s M"
      unfolding agrees_def using cl ag by auto
    moreover have "(M (c_nextBits s) AND 2 ^ j \<noteq> 0) = b"
      by (rule flag_decode [OF opened(4) w]) (use opened in simp)
    ultimately show ?thesis using opened by simp
  next
    case full
    note ag = assms(3) [unfolded flag_step_full [OF full(1) assms(2)] agrees_def]
    let ?s2 = "s\<lparr>c_bits := (if b then c_bits s OR 2 ^ 31 else c_bits s), c_bitMask := 0,
           c_mem := (c_mem s)(c_nextBits s := (if b then c_bits s OR 2 ^ 31 else c_bits s))\<rparr>"
    have nopen: "\<not> is_open ?s2 (c_nextBits s)"
      using ok(5) full by (auto simp: is_open_def distinct_ok_def)
    have "M (c_nextBits s) = (if b then c_bits s OR 2 ^ 31 else c_bits s)"
      using ag nopen full(4) by auto
    moreover have "take_bit (Suc 31) x = x" for x :: "32 word"
      by (rule take_bit_word_eq_self) simp
    ultimately have w: "take_bit (Suc 31) (M (c_nextBits s)) =
        (if b then c_bits s OR 2 ^ 31 else c_bits s)"
      by (simp only:)
    have cl: "M p = c_mem s p" if "p < c_next s" "\<not> is_open s p" for p
    proof -
      have "\<not> is_open ?s2 p" "p \<noteq> c_nextBits s"
        using that full by (auto simp: is_open_def)
      with ag that show ?thesis by auto
    qed
    have "M (c_nextBits s) AND (c_bitMask s - 1) = c_bits s"
      unfolding full(1) and_pred_take_bit using flag_back [OF full(2) w] .
    then have "agrees s M"
      unfolding agrees_def using cl ag by auto
    moreover have "(M (c_nextBits s) AND 2 ^ 31 \<noteq> 0) = b"
      by (rule flag_decode [OF full(2) w]) simp
    ultimately show ?thesis using full by simp
  qed
  then show "agrees s M"
    and "(M (if c_bitMask s = 0 then c_next s else c_nextBits s) AND
            (if c_bitMask s = 0 then 1 else c_bitMask s) \<noteq> 0) = b"
    by simp_all
qed

text \<open>The byte channel: lines 164 to 180.\<close>

lemma byte_step_closed:
  assumes "c_byteCount s = 0" "reserve_bytes outputEnd s = Inr s1"
  shows "pack_byte inp s1 =
         s\<lparr>c_nextBytes := c_next s, c_next := c_next s + 4,
           c_bytes := 0 + push_bit (0 * 8) (ucast (inp ! c_current s)),
           c_byteCount := Suc 0, c_current := c_current s + 1\<rparr>"
  using assms by (auto simp: reserve_bytes_def pack_byte_def Let_def split: if_splits)

lemma byte_step_open:
  assumes "c_byteCount s = k" "0 < k" "k < 3" "reserve_bytes outputEnd s = Inr s1"
  shows "pack_byte inp s1 =
         s\<lparr>c_bytes := c_bytes s + push_bit (k * 8) (ucast (inp ! c_current s)),
           c_byteCount := Suc k, c_current := c_current s + 1\<rparr>"
  using assms by (auto simp: reserve_bytes_def pack_byte_def Let_def split: if_splits)

lemma byte_step_full:
  assumes "c_byteCount s = 3" "reserve_bytes outputEnd s = Inr s1"
  shows "pack_byte inp s1 =
         s\<lparr>c_bytes := c_bytes s + push_bit (3 * 8) (ucast (inp ! c_current s)),
           c_byteCount := 0, c_current := c_current s + 1,
           c_mem := (c_mem s)(c_nextBytes s :=
                       c_bytes s + push_bit (3 * 8) (ucast (inp ! c_current s)))\<rparr>"
  using assms by (auto simp: reserve_bytes_def pack_byte_def Let_def split: if_splits)

lemma byte_okE:
  assumes "byte_ok s"
  obtains (closed) "c_byteCount s = 0"
  | (opened) k where "c_byteCount s = k" "0 < k" "k < 3"
      "take_bit (8 * k) (c_bytes s) = c_bytes s" "8 \<le> c_nextBytes s" "c_nextBytes s < c_next s"
  | (full) "c_byteCount s = 3"
      "take_bit (8 * 3) (c_bytes s) = c_bytes s" "8 \<le> c_nextBytes s" "c_nextBytes s < c_next s"
proof -
  consider "c_byteCount s = 0" | "0 < c_byteCount s \<and> c_byteCount s < 3" | "c_byteCount s = 3"
    using assms unfolding byte_ok_def by linarith
  then show thesis
  proof cases
    case 1 then show ?thesis by (rule closed)
  next
    case 2
    with assms show ?thesis by (intro opened [of "c_byteCount s"]) (auto simp: byte_ok_def)
  next
    case 3
    with assms show ?thesis by (intro full) (auto simp: byte_ok_def)
  qed
qed

lemma take_bit_0_bound: "take_bit (wd * 0) (0 :: 32 word) = 0"
  by simp

lemma byte_step_ok:
  assumes "packer_ok s" "reserve_bytes outputEnd s = Inr s1"
  shows "packer_ok (pack_byte inp s1)"
proof -
  from assms(1) have ok: "8 \<le> c_next s" "flag_ok s" "byte_ok s" "string_ok s" "distinct_ok s"
    by (simp_all add: packer_ok_def)
  let ?v = "ucast (inp ! c_current s) :: 32 word"
  from ok(3) show ?thesis
  proof (cases rule: byte_okE)
    case closed
    have "byte_ok (pack_byte inp s1)"
      unfolding byte_step_closed [OF closed assms(2)] byte_ok_def
      using ok(1) field_bound [OF take_bit_0_bound ucast_byte_bound [of "inp ! c_current s"]]
      by simp
    moreover have "flag_ok (pack_byte inp s1)" "string_ok (pack_byte inp s1)"
      "distinct_ok (pack_byte inp s1)"
      unfolding byte_step_closed [OF closed assms(2)]
      using ok closed by (auto simp: flag_ok_def string_ok_def distinct_ok_def)
    ultimately show ?thesis
      using ok(1) by (simp add: packer_ok_def byte_step_closed [OF closed assms(2)])
  next
    case (opened k)
    have "byte_ok (pack_byte inp s1)"
      unfolding byte_step_open [OF opened(1,2,3) assms(2)] byte_ok_def
      using opened field_bound [OF opened(4) ucast_byte_bound [of "inp ! c_current s"]]
      by simp
    moreover have "flag_ok (pack_byte inp s1)" "string_ok (pack_byte inp s1)"
      "distinct_ok (pack_byte inp s1)"
      unfolding byte_step_open [OF opened(1,2,3) assms(2)]
      using ok opened by (auto simp: flag_ok_def string_ok_def distinct_ok_def)
    ultimately show ?thesis
      using ok(1) by (simp add: packer_ok_def byte_step_open [OF opened(1,2,3) assms(2)])
  next
    case full
    have "flag_ok (pack_byte inp s1)" "byte_ok (pack_byte inp s1)" "string_ok (pack_byte inp s1)"
      "distinct_ok (pack_byte inp s1)"
      unfolding byte_step_full [OF full(1) assms(2)]
      using ok by (auto simp: flag_ok_def byte_ok_def string_ok_def distinct_ok_def)
    then show ?thesis
      using ok(1) by (simp add: packer_ok_def byte_step_full [OF full(1) assms(2)])
  qed
qed

lemma byte_step_frame:
  assumes "reserve_bytes outputEnd s = Inr s1"
  shows "c_current (pack_byte inp s1) = c_current s + 1"
    "c_bitMask (pack_byte inp s1) = c_bitMask s"
    "c_bits (pack_byte inp s1) = c_bits s"
    "c_nextBits (pack_byte inp s1) = c_nextBits s"
    "c_stringCount (pack_byte inp s1) = c_stringCount s"
    "c_strings (pack_byte inp s1) = c_strings s"
    "c_nextStrings (pack_byte inp s1) = c_nextStrings s"
    "c_next (pack_byte inp s1) = (if c_byteCount s = 0 then c_next s + 4 else c_next s)"
    "c_nextBytes (pack_byte inp s1) = (if c_byteCount s = 0 then c_next s else c_nextBytes s)"
    "c_byteCount (pack_byte inp s1) = (if c_byteCount s = 3 then 0 else c_byteCount s + 1)"
  using assms by (auto simp: reserve_bytes_def pack_byte_def Let_def split: if_splits)

lemma byte_step_agrees:
  assumes "packer_ok s" "reserve_bytes outputEnd s = Inr s1" "agrees (pack_byte inp s1) M"
  shows "agrees s M"
    and "ucast (signed_drop_bit (8 * c_byteCount s)
            (M (if c_byteCount s = 0 then c_next s else c_nextBytes s)) AND 0xff)
         = inp ! c_current s"
proof -
  from assms(1) have ok: "8 \<le> c_next s" "flag_ok s" "byte_ok s" "string_ok s" "distinct_ok s"
    by (simp_all add: packer_ok_def)
  let ?v = "ucast (inp ! c_current s) :: 32 word"
  from ok(3) have "agrees s M \<and>
     ucast (signed_drop_bit (8 * c_byteCount s)
            (M (if c_byteCount s = 0 then c_next s else c_nextBytes s)) AND 0xff)
         = inp ! c_current s"
  proof (cases rule: byte_okE)
    case closed
    note ag = assms(3) [unfolded byte_step_closed [OF closed assms(2)] agrees_def]
    have w: "take_bit (8 * Suc 0) (M (c_next s)) = 0 + push_bit (0 * 8) ?v"
      using ag by simp
    have cl: "M p = c_mem s p" if "p < c_next s" "\<not> is_open s p" for p
    proof -
      have "\<not> is_open (s\<lparr>c_nextBytes := c_next s, c_next := c_next s + 4,
           c_bytes := 0 + push_bit (0 * 8) ?v,
           c_byteCount := Suc 0, c_current := c_current s + 1\<rparr>) p"
        using that closed by (auto simp: is_open_def)
      with ag that show ?thesis by auto
    qed
    have "agrees s M"
      unfolding agrees_def using cl ag closed by auto
    moreover have "take_bit 8 (signed_drop_bit (8 * 0) (M (c_next s))) = ?v"
      by (rule field_decode [OF take_bit_0_bound ucast_byte_bound w]) simp
    ultimately show ?thesis using closed byte_decode by simp
  next
    case (opened k)
    note ag = assms(3) [unfolded byte_step_open [OF opened(1,2,3) assms(2)] agrees_def]
    have w: "take_bit (8 * Suc k) (M (c_nextBytes s)) = c_bytes s + push_bit (k * 8) ?v"
      using ag by simp
    have cl: "M p = c_mem s p" if "p < c_next s" "\<not> is_open s p" for p
    proof -
      have "\<not> is_open (s\<lparr>c_bytes := c_bytes s + push_bit (k * 8) ?v,
           c_byteCount := Suc k, c_current := c_current s + 1\<rparr>) p"
        using that opened by (auto simp: is_open_def)
      with ag that show ?thesis by auto
    qed
    have "take_bit (8 * c_byteCount s) (M (c_nextBytes s)) = c_bytes s"
      unfolding opened(1) using field_back [OF opened(4) w] .
    then have "agrees s M"
      unfolding agrees_def using cl ag by auto
    moreover have "take_bit 8 (signed_drop_bit (8 * k) (M (c_nextBytes s))) = ?v"
      by (rule field_decode [OF opened(4) ucast_byte_bound w]) (use opened in simp)
    ultimately show ?thesis using opened byte_decode by simp
  next
    case full
    note ag = assms(3) [unfolded byte_step_full [OF full(1) assms(2)] agrees_def]
    let ?s2 = "s\<lparr>c_bytes := c_bytes s + push_bit (3 * 8) ?v,
           c_byteCount := 0, c_current := c_current s + 1,
           c_mem := (c_mem s)(c_nextBytes s := c_bytes s + push_bit (3 * 8) ?v)\<rparr>"
    have nopen: "\<not> is_open ?s2 (c_nextBytes s)"
      using ok(5) full by (auto simp: is_open_def distinct_ok_def)
    have "M (c_nextBytes s) = c_bytes s + push_bit (3 * 8) ?v"
      using ag nopen full(4) by auto
    moreover have "take_bit (8 * Suc 3) x = x" for x :: "32 word"
      by (rule take_bit_word_eq_self) simp
    ultimately have w: "take_bit (8 * Suc 3) (M (c_nextBytes s)) =
        c_bytes s + push_bit (3 * 8) ?v"
      by (simp only:)
    have cl: "M p = c_mem s p" if "p < c_next s" "\<not> is_open s p" for p
    proof -
      have "\<not> is_open ?s2 p" "p \<noteq> c_nextBytes s"
        using that full by (auto simp: is_open_def)
      with ag that show ?thesis by auto
    qed
    have "take_bit (8 * c_byteCount s) (M (c_nextBytes s)) = c_bytes s"
      unfolding full(1) using field_back [OF full(2) w] .
    then have "agrees s M"
      unfolding agrees_def using cl ag by auto
    moreover have "take_bit 8 (signed_drop_bit (8 * 3) (M (c_nextBytes s))) = ?v"
      by (rule field_decode [OF full(2) ucast_byte_bound w]) simp
    ultimately show ?thesis using full byte_decode by simp
  qed
  then show "agrees s M"
    and "ucast (signed_drop_bit (8 * c_byteCount s)
            (M (if c_byteCount s = 0 then c_next s else c_nextBytes s)) AND 0xff)
         = inp ! c_current s"
    by simp_all
qed

text \<open>The string channel: lines 135 to 154.\<close>

lemma string_step_closed:
  assumes "c_stringCount s = 0" "reserve_strings outputEnd s = Inr s1"
  shows "pack_string lengthShift bestLength bestOffset s1 =
         s\<lparr>c_nextStrings := c_next s, c_next := c_next s + 4,
           c_strings := 0 + push_bit (0 * 16) (token lengthShift bestLength bestOffset),
           c_stringCount := Suc 0, c_current := c_current s + bestLength\<rparr>"
  using assms
  by (auto simp: reserve_strings_def pack_string_def token_def Let_def split: if_splits)

lemma string_step_full:
  assumes "c_stringCount s = 1" "reserve_strings outputEnd s = Inr s1"
  shows "pack_string lengthShift bestLength bestOffset s1 =
         s\<lparr>c_strings := c_strings s + push_bit (1 * 16) (token lengthShift bestLength bestOffset),
           c_stringCount := 0, c_current := c_current s + bestLength,
           c_mem := (c_mem s)(c_nextStrings s :=
              c_strings s + push_bit (1 * 16) (token lengthShift bestLength bestOffset))\<rparr>"
  using assms
  by (auto simp: reserve_strings_def pack_string_def token_def Let_def split: if_splits)

lemma flag_step_mem:
  assumes "reserve_bits outputEnd s = Inr s1"
  shows "c_mem (emit_flag b s1) =
           (if c_bitMask (emit_flag b s1) = 0
            then (c_mem s)(c_nextBits (emit_flag b s1) := c_bits (emit_flag b s1))
            else c_mem s)"
  using assms by (auto simp: reserve_bits_def emit_flag_def Let_def split: if_splits)

lemma byte_step_value:
  assumes "reserve_bytes outputEnd s = Inr s1"
  shows "c_bytes (pack_byte inp s1) =
           (if c_byteCount s = 0 then 0 else c_bytes s) +
           push_bit (c_byteCount s * 8) (ucast (inp ! c_current s))"
    and "c_mem (pack_byte inp s1) =
           (if c_byteCount s = 3
            then (c_mem s)(c_nextBytes (pack_byte inp s1) := c_bytes (pack_byte inp s1))
            else c_mem s)"
  using assms by (auto simp: reserve_bytes_def pack_byte_def Let_def split: if_splits)

lemma flag_step_value:
  assumes "reserve_bits outputEnd s = Inr s1"
  shows "c_bits (emit_flag b s1) =
           (if b then (if c_bitMask s = 0 then 0 else c_bits s) OR
                      (if c_bitMask s = 0 then 1 else c_bitMask s)
            else (if c_bitMask s = 0 then 0 else c_bits s))"
  using assms by (auto simp: reserve_bits_def emit_flag_def Let_def split: if_splits)

lemma string_okE:
  assumes "string_ok s"
  obtains (closed) "c_stringCount s = 0"
  | (full) "c_stringCount s = 1"
      "take_bit (16 * 1) (c_strings s) = c_strings s" "8 \<le> c_nextStrings s"
      "c_nextStrings s < c_next s"
proof -
  consider "c_stringCount s = 0" | "c_stringCount s = 1"
    using assms unfolding string_ok_def by linarith
  then show thesis
  proof cases
    case 1 then show ?thesis by (rule closed)
  next
    case 2
    with assms show ?thesis by (intro full) (auto simp: string_ok_def)
  qed
qed

lemma string_step_ok:
  assumes "packer_ok s" "reserve_strings outputEnd s = Inr s1"
    and tok: "take_bit 16 (token lengthShift bestLength bestOffset) = token lengthShift bestLength bestOffset"
  shows "packer_ok (pack_string lengthShift bestLength bestOffset s1)"
proof -
  from assms(1) have ok: "8 \<le> c_next s" "flag_ok s" "byte_ok s" "string_ok s" "distinct_ok s"
    by (simp_all add: packer_ok_def)
  let ?p = "pack_string lengthShift bestLength bestOffset s1"
  from ok(4) show ?thesis
  proof (cases rule: string_okE)
    case closed
    have "string_ok ?p"
      unfolding string_step_closed [OF closed assms(2)] string_ok_def
      using ok(1) field_bound [OF take_bit_0_bound tok]
      by simp
    moreover have "flag_ok ?p" "byte_ok ?p" "distinct_ok ?p"
      unfolding string_step_closed [OF closed assms(2)]
      using ok closed by (auto simp: flag_ok_def byte_ok_def distinct_ok_def)
    ultimately show ?thesis
      using ok(1) by (simp add: packer_ok_def string_step_closed [OF closed assms(2)])
  next
    case full
    have "flag_ok ?p" "byte_ok ?p" "string_ok ?p" "distinct_ok ?p"
      unfolding string_step_full [OF full(1) assms(2)]
      using ok by (auto simp: flag_ok_def byte_ok_def string_ok_def distinct_ok_def)
    then show ?thesis
      using ok(1) by (simp add: packer_ok_def string_step_full [OF full(1) assms(2)])
  qed
qed

lemma string_step_frame:
  assumes "reserve_strings outputEnd s = Inr s1"
  shows "c_current (pack_string lengthShift bestLength bestOffset s1) = c_current s + bestLength"
    "c_bitMask (pack_string lengthShift bestLength bestOffset s1) = c_bitMask s"
    "c_bits (pack_string lengthShift bestLength bestOffset s1) = c_bits s"
    "c_nextBits (pack_string lengthShift bestLength bestOffset s1) = c_nextBits s"
    "c_byteCount (pack_string lengthShift bestLength bestOffset s1) = c_byteCount s"
    "c_bytes (pack_string lengthShift bestLength bestOffset s1) = c_bytes s"
    "c_nextBytes (pack_string lengthShift bestLength bestOffset s1) = c_nextBytes s"
    "c_next (pack_string lengthShift bestLength bestOffset s1) =
       (if c_stringCount s = 0 then c_next s + 4 else c_next s)"
    "c_nextStrings (pack_string lengthShift bestLength bestOffset s1) =
       (if c_stringCount s = 0 then c_next s else c_nextStrings s)"
    "c_stringCount (pack_string lengthShift bestLength bestOffset s1) =
       (if c_stringCount s = 1 then 0 else c_stringCount s + 1)"
  using assms by (auto simp: reserve_strings_def pack_string_def Let_def split: if_splits)

lemma string_step_agrees:
  assumes "packer_ok s" "reserve_strings outputEnd s = Inr s1"
    "agrees (pack_string lengthShift bestLength bestOffset s1) M"
    and tok: "take_bit 16 (token lengthShift bestLength bestOffset) = token lengthShift bestLength bestOffset"
  shows "agrees s M"
    and "take_bit 16 (signed_drop_bit (16 * c_stringCount s)
            (M (if c_stringCount s = 0 then c_next s else c_nextStrings s)))
         = token lengthShift bestLength bestOffset"
proof -
  from assms(1) have ok: "8 \<le> c_next s" "flag_ok s" "byte_ok s" "string_ok s" "distinct_ok s"
    by (simp_all add: packer_ok_def)
  let ?v = "token lengthShift bestLength bestOffset"
  from ok(4) have "agrees s M \<and>
     take_bit 16 (signed_drop_bit (16 * c_stringCount s)
            (M (if c_stringCount s = 0 then c_next s else c_nextStrings s))) = ?v"
  proof (cases rule: string_okE)
    case closed
    note ag = assms(3) [unfolded string_step_closed [OF closed assms(2)] agrees_def]
    have w: "take_bit (16 * Suc 0) (M (c_next s)) = 0 + push_bit (0 * 16) ?v"
      using ag by simp
    have cl: "M p = c_mem s p" if "p < c_next s" "\<not> is_open s p" for p
    proof -
      have "\<not> is_open (s\<lparr>c_nextStrings := c_next s, c_next := c_next s + 4,
           c_strings := 0 + push_bit (0 * 16) ?v,
           c_stringCount := Suc 0, c_current := c_current s + bestLength\<rparr>) p"
        using that closed by (auto simp: is_open_def)
      with ag that show ?thesis by auto
    qed
    have "agrees s M"
      unfolding agrees_def using cl ag closed by auto
    moreover have "take_bit 16 (signed_drop_bit (16 * 0) (M (c_next s))) = ?v"
      by (rule field_decode [OF take_bit_0_bound tok w]) simp
    ultimately show ?thesis using closed by simp
  next
    case full
    note ag = assms(3) [unfolded string_step_full [OF full(1) assms(2)] agrees_def]
    let ?s2 = "s\<lparr>c_strings := c_strings s + push_bit (1 * 16) ?v,
           c_stringCount := 0, c_current := c_current s + bestLength,
           c_mem := (c_mem s)(c_nextStrings s := c_strings s + push_bit (1 * 16) ?v)\<rparr>"
    have nopen: "\<not> is_open ?s2 (c_nextStrings s)"
      using ok(5) full by (auto simp: is_open_def distinct_ok_def)
    have "M (c_nextStrings s) = c_strings s + push_bit (1 * 16) ?v"
      using ag nopen full(4) by auto
    moreover have "take_bit (16 * Suc 1) x = x" for x :: "32 word"
      by (rule take_bit_word_eq_self) simp
    ultimately have w: "take_bit (16 * Suc 1) (M (c_nextStrings s)) =
        c_strings s + push_bit (1 * 16) ?v"
      by (simp only:)
    have cl: "M p = c_mem s p" if "p < c_next s" "\<not> is_open s p" for p
    proof -
      have "\<not> is_open ?s2 p" "p \<noteq> c_nextStrings s"
        using that full by (auto simp: is_open_def)
      with ag that show ?thesis by auto
    qed
    have "take_bit (16 * c_stringCount s) (M (c_nextStrings s)) = c_strings s"
      unfolding full(1) using field_back [OF full(2) w] .
    then have "agrees s M"
      unfolding agrees_def using cl ag by auto
    moreover have "take_bit 16 (signed_drop_bit (16 * 1) (M (c_nextStrings s))) = ?v"
      by (rule field_decode [OF full(2) tok w]) simp
    ultimately show ?thesis using full by simp
  qed
  then show "agrees s M"
    and "take_bit 16 (signed_drop_bit (16 * c_stringCount s)
            (M (if c_stringCount s = 0 then c_next s else c_nextStrings s))) = ?v"
    by simp_all
qed

lemma token_fields:
  assumes fm: "find_match inp current (2 ^ ls + 2) (2 ^ (16 - ls) + 2) = (bl, bo)"
    and bl: "2 < bl"
  shows "bl - 3 < 2 ^ (16 - ls)" "bo - 3 < 2 ^ ls" "3 \<le> bo"
    "token ls bl bo = push_bit ls (word_of_nat (bl - 3)) + word_of_nat (bo - 3)"
proof -
  from find_match_bounds [OF fm] have b: "bl \<le> bo" "bo \<le> 2 ^ ls + 2" "bl \<le> 2 ^ (16 - ls) + 2"
    by simp_all
  from b bl show "bl - 3 < 2 ^ (16 - ls)" "bo - 3 < 2 ^ ls" "3 \<le> bo" by linarith+
  have "int bl - 3 = int (bl - 3)" "int bo - 3 = int (bo - 3)" using b bl by linarith+
  then show "token ls bl bo = push_bit ls (word_of_nat (bl - 3)) + word_of_nat (bo - 3)"
    by (simp only: token_def of_int_of_nat_eq)
qed

lemma token_fits:
  assumes fm: "find_match inp current (2 ^ ls + 2) (2 ^ (16 - ls) + 2) = (bl, bo)"
    and bl: "2 < bl" and ls: "ls \<le> 16"
  shows "take_bit 16 (token ls bl bo) = token ls bl bo"
  unfolding token_fields(4) [OF fm bl]
  by (rule token_bound [OF ls token_fields(1,2) [OF fm bl]])

text \<open>One iteration, taken apart.\<close>

lemma compress_step_string:
  assumes "compress_step inp outputEnd maxOffset maxMatch lengthShift s = Inr s'"
    "find_match inp (c_current s) maxOffset maxMatch = (bl, bo)" "2 < bl"
  obtains s1 s2 where "reserve_bits outputEnd s = Inr s1"
    "reserve_strings outputEnd (emit_flag True s1) = Inr s2"
    "s' = pack_string lengthShift bl bo s2"
  using assms by (auto simp: compress_step_def split: sum.splits)

lemma compress_step_byte:
  assumes "compress_step inp outputEnd maxOffset maxMatch lengthShift s = Inr s'"
    "find_match inp (c_current s) maxOffset maxMatch = (bl, bo)" "\<not> 2 < bl"
  obtains s1 s2 where "reserve_bits outputEnd s = Inr s1"
    "reserve_bytes outputEnd (emit_flag False s1) = Inr s2"
    "s' = pack_byte inp s2"
  using assms by (auto simp: compress_step_def split: sum.splits)

lemma compress_step_ok:
  assumes ok: "packer_ok s" and cur: "c_current s < length inp" and ls: "ls \<le> 16"
    and step: "compress_step inp outputEnd (2 ^ ls + 2) (2 ^ (16 - ls) + 2) ls s = Inr s'"
  shows "packer_ok s'" "c_current s' \<le> length inp"
proof -
  obtain bl bo where fm: "find_match inp (c_current s) (2 ^ ls + 2) (2 ^ (16 - ls) + 2) = (bl, bo)"
    by (cases "find_match inp (c_current s) (2 ^ ls + 2) (2 ^ (16 - ls) + 2)")
  have "packer_ok s' \<and> c_current s' \<le> length inp"
  proof (cases "2 < bl")
    case True
    from compress_step_string [OF step fm True] obtain s1 s2
      where s: "reserve_bits outputEnd s = Inr s1"
        "reserve_strings outputEnd (emit_flag True s1) = Inr s2"
        "s' = pack_string ls bl bo s2"
      by blast
    have "packer_ok s'"
      unfolding s(3)
      by (rule string_step_ok [OF flag_step_ok [OF ok s(1)] s(2) token_fits [OF fm True ls]])
    moreover have "c_current s' = c_current s + bl"
      by (simp add: s(3) string_step_frame(1) [OF s(2)] flag_step_frame(1) [OF s(1)])
    moreover have "bl \<le> length inp - c_current s"
      using find_match_bounds(5) [OF fm] .
    ultimately show ?thesis using cur by simp
  next
    case False
    from compress_step_byte [OF step fm False] obtain s1 s2
      where s: "reserve_bits outputEnd s = Inr s1"
        "reserve_bytes outputEnd (emit_flag False s1) = Inr s2"
        "s' = pack_byte inp s2"
      by blast
    have "packer_ok s'"
      unfolding s(3) by (rule byte_step_ok [OF flag_step_ok [OF ok s(1)] s(2)])
    moreover have "c_current s' = c_current s + 1"
      by (simp add: s(3) byte_step_frame(1) [OF s(2)] flag_step_frame(1) [OF s(1)])
    ultimately show ?thesis using cur by simp
  qed
  then show "packer_ok s'" "c_current s' \<le> length inp" by simp_all
qed

lemma compress_step_agrees:
  assumes ok: "packer_ok s" and ls: "ls \<le> 16"
    and step: "compress_step inp outputEnd (2 ^ ls + 2) (2 ^ (16 - ls) + 2) ls s = Inr s'"
    and ag: "agrees s' M"
  shows "agrees s M"
proof -
  obtain bl bo where fm: "find_match inp (c_current s) (2 ^ ls + 2) (2 ^ (16 - ls) + 2) = (bl, bo)"
    by (cases "find_match inp (c_current s) (2 ^ ls + 2) (2 ^ (16 - ls) + 2)")
  show ?thesis
  proof (cases "2 < bl")
    case True
    from compress_step_string [OF step fm True] obtain s1 s2
      where s: "reserve_bits outputEnd s = Inr s1"
        "reserve_strings outputEnd (emit_flag True s1) = Inr s2"
        "s' = pack_string ls bl bo s2"
      by blast
    have "agrees (emit_flag True s1) M"
      by (rule string_step_agrees(1) [OF flag_step_ok [OF ok s(1)] s(2) ag [unfolded s(3)]
            token_fits [OF fm True ls]])
    then show ?thesis by (rule flag_step_agrees(1) [OF ok s(1)])
  next
    case False
    from compress_step_byte [OF step fm False] obtain s1 s2
      where s: "reserve_bits outputEnd s = Inr s1"
        "reserve_bytes outputEnd (emit_flag False s1) = Inr s2"
        "s' = pack_byte inp s2"
      by blast
    have "agrees (emit_flag False s1) M"
      by (rule byte_step_agrees(1) [OF flag_step_ok [OF ok s(1)] s(2) ag [unfolded s(3)]])
    then show ?thesis by (rule flag_step_agrees(1) [OF ok s(1)])
  qed
qed

lemma flush_agrees:
  assumes "packer_ok s"
  shows "agrees s (flush s)"
proof -
  from assms have ok: "8 \<le> c_next s" "flag_ok s" "byte_ok s" "string_ok s" "distinct_ok s"
    by (simp_all add: packer_ok_def)
  have f: "c_bitMask s \<noteq> 0 \<Longrightarrow> c_bits s AND (c_bitMask s - 1) = c_bits s"
    using ok(2) by (auto simp: flag_ok_def and_pred_take_bit)
  show ?thesis
    unfolding agrees_def flush_def Let_def
    using ok(3,4,5) f
    by (auto simp: is_open_def byte_ok_def string_ok_def distinct_ok_def)
qed

declare compress_loop.simps [simp del]

lemma compress_loop_agrees:
  assumes "packer_ok s" "c_current s \<le> length inp" "ls \<le> 16"
    "compress_loop inp outputEnd (2 ^ ls + 2) (2 ^ (16 - ls) + 2) ls s = Inr sf"
  shows "packer_ok sf \<and> c_current sf = length inp \<and> agrees s (flush sf)"
  using assms
proof (induction inp outputEnd "2 ^ ls + 2 :: nat" "2 ^ (16 - ls) + 2 :: nat" ls s
        rule: compress_loop.induct)
  case (1 inp outputEnd ls s)
  show ?case
  proof (cases "c_current s < length inp")
    case False
    with "1.prems" have "sf = s"
      by (subst (asm) compress_loop.simps) simp
    with False "1.prems" flush_agrees [of s] show ?thesis by simp
  next
    case True
    with "1.prems" obtain s'
      where step: "compress_step inp outputEnd (2 ^ ls + 2) (2 ^ (16 - ls) + 2) ls s = Inr s'"
        and loop: "compress_loop inp outputEnd (2 ^ ls + 2) (2 ^ (16 - ls) + 2) ls s' = Inr sf"
      by (subst (asm) compress_loop.simps) (auto split: sum.splits)
    note ok' = compress_step_ok [OF "1.prems"(1) True "1.prems"(3) step]
    from "1.hyps" [OF True step ok' "1.prems"(3) loop]
    have ih: "packer_ok sf" "c_current sf = length inp" "agrees s' (flush sf)" by simp_all
    from compress_step_agrees [OF "1.prems"(1,3) step ih(3)] ih show ?thesis by simp
  qed
qed

lemma fill_bits_sim:
  assumes "sim inp M s t"
  shows "d_bits (fill_bits M t) = M (if c_bitMask s = 0 then c_next s else c_nextBits s)"
    "d_bitMask (fill_bits M t) = (if c_bitMask s = 0 then 1 else c_bitMask s)"
    "d_current (fill_bits M t) = (if c_bitMask s = 0 then c_next s + 4 else c_next s)"
    "d_bytes (fill_bits M t) = d_bytes t" "d_byteCount (fill_bits M t) = d_byteCount t"
    "d_strings (fill_bits M t) = d_strings t" "d_stringCount (fill_bits M t) = d_stringCount t"
    "d_buffer (fill_bits M t) = d_buffer t" "d_remaining (fill_bits M t) = d_remaining t"
  using assms by (auto simp: sim_def fill_bits_def)

lemma fill_bytes_frame:
  "d_bits (fill_bytes M t) = d_bits t" "d_bitMask (fill_bytes M t) = d_bitMask t"
  "d_strings (fill_bytes M t) = d_strings t" "d_stringCount (fill_bytes M t) = d_stringCount t"
  "d_buffer (fill_bytes M t) = d_buffer t" "d_remaining (fill_bytes M t) = d_remaining t"
  "d_current (fill_bytes M t) = (if d_byteCount t = 0 then d_current t + 4 else d_current t)"
  "d_bytes (fill_bytes M t) = (if d_byteCount t = 0 then M (d_current t) else d_bytes t)"
  "d_byteCount (fill_bytes M t) = (if d_byteCount t = 0 then 4 else d_byteCount t)"
  by (simp_all add: fill_bytes_def)

lemma fill_strings_frame:
  "d_bits (fill_strings M t) = d_bits t" "d_bitMask (fill_strings M t) = d_bitMask t"
  "d_bytes (fill_strings M t) = d_bytes t" "d_byteCount (fill_strings M t) = d_byteCount t"
  "d_buffer (fill_strings M t) = d_buffer t" "d_remaining (fill_strings M t) = d_remaining t"
  "d_current (fill_strings M t) = (if d_stringCount t = 0 then d_current t + 4 else d_current t)"
  "d_strings (fill_strings M t) = (if d_stringCount t = 0 then M (d_current t) else d_strings t)"
  "d_stringCount (fill_strings M t) = (if d_stringCount t = 0 then 2 else d_stringCount t)"
  by (simp_all add: fill_strings_def)

lemma step_sim_byte:
  assumes ok: "packer_ok s" and cur: "c_current s < length inp"
    and cap: "int (length inp) \<le> cap"
    and fm: "find_match inp (c_current s) maxOffset maxMatch = (bl, bo)" and bl: "\<not> 2 < bl"
    and step: "compress_step inp outputEnd maxOffset maxMatch ls s = Inr s'"
    and ag: "agrees s' M" and sim: "sim inp M s t"
  shows "\<exists>t'. decompress_step M cap om ls lm t = Inr t' \<and> sim inp M s' t'"
proof -
  from compress_step_byte [OF step fm bl] obtain s1 s2
    where s: "reserve_bits outputEnd s = Inr s1"
      "reserve_bytes outputEnd (emit_flag False s1) = Inr s2"
      "s' = pack_byte inp s2"
    by blast
  let ?sf = "emit_flag False s1"
  note okf = flag_step_ok [OF ok s(1), of False]
  note agf = byte_step_agrees [OF okf s(2) ag [unfolded s(3)]]
  note flag = flag_step_agrees(2) [OF ok s(1) agf(1)]
  note ff = flag_step_frame [OF s(1), of False]
  note bf = byte_step_frame [OF s(2), of inp, folded s(3)]
  note fb = fill_bits_sim [OF sim]
  let ?t1 = "fill_bits M t"
  let ?t2 = "fill_bytes M ?t1"
  from ok have bok: "c_byteCount s < 4" by (simp add: packer_ok_def byte_ok_def)
  have test: "\<not> (d_bits ?t1 AND d_bitMask ?t1 \<noteq> 0)"
    using flag by (simp add: fb)
  have bc: "d_byteCount ?t1 = (if c_byteCount s = 0 then 0 else 4 - c_byteCount s)"
    using sim by (simp add: fb sim_def)
  have bytes2: "d_bytes ?t2 = signed_drop_bit (8 * c_byteCount s)
       (M (if c_byteCount s = 0 then c_next ?sf else c_nextBytes ?sf))"
    using sim bok by (auto simp: fill_bytes_frame fb ff sim_def)
  have byte: "ucast (d_bytes ?t2 AND 0xff) = inp ! c_current s"
    using agf(2) by (simp only: bytes2 ff)
  have len: "length (d_buffer ?t2) = c_current s"
    using sim cur by (simp add: fill_bytes_frame fb sim_def)
  have nover: "\<not> cap < int (length (d_buffer ?t2)) + 1"
    using len cur cap by simp
  define t' where "t' = ?t2\<lparr>d_buffer := d_buffer ?t2 @ [ucast (d_bytes ?t2 AND 0xff)],
                  d_remaining := d_remaining ?t2 - 1,
                  d_bytes := signed_drop_bit 8 (d_bytes ?t2),
                  d_byteCount := d_byteCount ?t2 - 1,
                  d_bitMask := push_bit 1 (d_bitMask ?t2)\<rparr>"
  have run: "decompress_step M cap om ls lm t = Inr t'"
    unfolding decompress_step_def Let_def write_byte_def t'_def using test nover by simp
  have 1: "d_current t' = c_next s'"
    using bc bok by (simp add: t'_def fill_bytes_frame fb bf ff)
  have 2: "d_bitMask t' = c_bitMask s'"
    by (simp add: t'_def fill_bytes_frame fb bf ff)
  have 3: "d_bits t' = M (c_nextBits s')"
    by (simp add: t'_def fill_bytes_frame fb bf ff)
  have 4: "d_byteCount t' = (if c_byteCount s' = 0 then 0 else 4 - c_byteCount s')"
    using bc bok by (auto simp: t'_def fill_bytes_frame fb bf ff)
  have 5: "d_bytes t' = signed_drop_bit (8 * c_byteCount s') (M (c_nextBytes s'))"
    if "c_byteCount s' \<noteq> 0"
    using that bytes2 by (auto simp: t'_def bf ff split: if_splits)
  have 6: "d_stringCount t' = (if c_stringCount s' = 0 then 0 else 2 - c_stringCount s')"
    "c_stringCount s' \<noteq> 0 \<Longrightarrow>
        d_strings t' = signed_drop_bit (16 * c_stringCount s') (M (c_nextStrings s'))"
    using sim by (simp_all add: t'_def fill_bytes_frame fb bf ff sim_def)
  have 7: "d_buffer t' = take (c_current s') inp"
    using sim cur byte
    by (simp add: t'_def fill_bytes_frame fb bf ff sim_def take_Suc_conv_app_nth)
  have "d_remaining t' = word_of_nat (length inp - c_current s) - 1"
    using sim by (simp add: t'_def fill_bytes_frame fb sim_def)
  also have "\<dots> = word_of_nat (length inp - c_current s')"
  proof -
    have "length inp - c_current s = Suc (length inp - c_current s')"
      using cur by (simp add: bf ff)
    then show ?thesis by simp
  qed
  finally have 8: "d_remaining t' = word_of_nat (length inp - c_current s')" .
  have "sim inp M s' t'"
    unfolding sim_def using 1 2 3 4 5 6 7 8 by simp
  with run show ?thesis by blast
qed

lemma copy_window:
  assumes "bl \<le> bo" "bo \<le> c" "c + bl \<le> length inp"
    "\<And>k. k < bl \<Longrightarrow> inp ! (c - bo + k) = inp ! (c + k)"
  shows "take c inp @ take bl (drop (length (take c inp) - bo) (take c inp)) = take (c + bl) inp"
proof -
  have len: "length (take c inp) = c" using assms by simp
  have "take bl (drop (c - bo) (take c inp)) = take bl (drop c inp)"
  proof (rule nth_equalityI)
    show "length (take bl (drop (c - bo) (take c inp))) = length (take bl (drop c inp))"
      using assms by simp
  next
    fix i
    assume "i < length (take bl (drop (c - bo) (take c inp)))"
    then have i: "i < bl" by simp
    then have "c - bo + i < c" using assms by linarith
    then show "take bl (drop (c - bo) (take c inp)) ! i = take bl (drop c inp) ! i"
      using i assms by simp
  qed
  moreover have "min (length inp) c = c" using assms by simp
  ultimately show ?thesis by (simp add: take_add)
qed

lemma step_sim_string:
  assumes ok: "packer_ok s" and cur: "c_current s < length inp"
    and cap: "int (length inp) \<le> cap" and ls: "ls \<le> 16"
    and fm: "find_match inp (c_current s) (2 ^ ls + 2) (2 ^ (16 - ls) + 2) = (bl, bo)"
    and bl: "2 < bl"
    and step: "compress_step inp outputEnd (2 ^ ls + 2) (2 ^ (16 - ls) + 2) ls s = Inr s'"
    and ag: "agrees s' M" and sim: "sim inp M s t"
  shows "\<exists>t'. decompress_step M cap (word_of_int (2 ^ ls - 1)) ls
            (signed_drop_bit ls ((NOT (word_of_int (2 ^ ls - 1))) AND 0xffff)) t = Inr t' \<and>
          sim inp M s' t'"
proof -
  from compress_step_string [OF step fm bl] obtain s1 s2
    where s: "reserve_bits outputEnd s = Inr s1"
      "reserve_strings outputEnd (emit_flag True s1) = Inr s2"
      "s' = pack_string ls bl bo s2"
    by blast
  let ?sf = "emit_flag True s1"
  let ?om = "word_of_int (2 ^ ls - 1) :: 32 word"
  let ?lm = "signed_drop_bit ls ((NOT ?om) AND 0xffff)"
  note tf = token_fields [OF fm bl]
  note fits = token_fits [OF fm bl ls]
  note fmb = find_match_bounds [OF fm]
  note okf = flag_step_ok [OF ok s(1), of True]
  note agf = string_step_agrees [OF okf s(2) ag [unfolded s(3)] fits]
  note flag = flag_step_agrees(2) [OF ok s(1) agf(1)]
  note ff = flag_step_frame [OF s(1), of True]
  note sf = string_step_frame [OF s(2), of ls bl bo, folded s(3)]
  note fb = fill_bits_sim [OF sim]
  let ?t1 = "fill_bits M t"
  let ?t2 = "fill_strings M ?t1"
  from ok have sok: "c_stringCount s < 2" by (simp add: packer_ok_def string_ok_def)
  have test: "d_bits ?t1 AND d_bitMask ?t1 \<noteq> 0"
    using flag by (simp add: fb)
  have sc: "d_stringCount ?t1 = (if c_stringCount s = 0 then 0 else 2 - c_stringCount s)"
    using sim by (simp add: fb sim_def)
  have strings2: "d_strings ?t2 = signed_drop_bit (16 * c_stringCount s)
       (M (if c_stringCount s = 0 then c_next ?sf else c_nextStrings ?sf))"
    using sim sok by (auto simp: fill_strings_frame fb ff sim_def)
  have tok: "take_bit 16 (d_strings ?t2)
      = push_bit ls (word_of_nat (bl - 3)) + word_of_nat (bo - 3)"
    using agf(2) by (simp only: strings2 ff tf(4))
  have off: "unat (d_strings ?t2 AND ?om) + 3 = bo"
    using token_offset [OF ls tf(1,2) tok] tf(3) by simp
  have len: "unat (signed_drop_bit ls (d_strings ?t2) AND ?lm) + 3 = bl"
    using token_length [OF ls tf(1,2) tok] bl by simp
  have buf: "d_buffer ?t2 = take (c_current s) inp"
    using sim by (simp add: fill_strings_frame fb sim_def)
  have blen: "length (d_buffer ?t2) = c_current s"
    using cur by (simp add: buf)
  have fit: "c_current s + bl \<le> length inp" using fmb(5) cur by linarith
  have copy: "memcpy_back cap (d_buffer ?t2) bo bl = Inr (take (c_current s + bl) inp)"
    unfolding memcpy_back_def blen
    using fmb(1,2) fit cap copy_window [OF fmb(1,2) fit fmb(6)] cur
    by (simp add: buf)
  define t' where "t' = ?t2\<lparr>d_buffer := take (c_current s + bl) inp,
                    d_remaining := d_remaining ?t2 - word_of_nat bl,
                    d_strings := signed_drop_bit 16 (d_strings ?t2),
                    d_stringCount := d_stringCount ?t2 - 1,
                    d_bitMask := push_bit 1 (d_bitMask ?t2)\<rparr>"
  have cs: "copy_string cap ?om ls ?lm ?t2 = Inr (?t2\<lparr>d_buffer := take (c_current s + bl) inp,
                    d_remaining := d_remaining ?t2 - word_of_nat bl,
                    d_strings := signed_drop_bit 16 (d_strings ?t2),
                    d_stringCount := d_stringCount ?t2 - 1\<rparr>)"
    unfolding copy_string_def Let_def off len copy by simp
  have run: "decompress_step M cap ?om ls ?lm t = Inr t'"
    unfolding decompress_step_def Let_def if_P [OF test] cs t'_def by simp
  have 1: "d_current t' = c_next s'"
    using sc sok by (simp add: t'_def fill_strings_frame fb sf ff)
  have 2: "d_bitMask t' = c_bitMask s'"
    by (simp add: t'_def fill_strings_frame fb sf ff)
  have 3: "d_bits t' = M (c_nextBits s')"
    by (simp add: t'_def fill_strings_frame fb sf ff)
  have 4: "d_stringCount t' = (if c_stringCount s' = 0 then 0 else 2 - c_stringCount s')"
    using sc sok by (auto simp: t'_def fill_strings_frame fb sf ff)
  have 5: "d_strings t' = signed_drop_bit (16 * c_stringCount s') (M (c_nextStrings s'))"
    if "c_stringCount s' \<noteq> 0"
    using that strings2 by (auto simp: t'_def sf ff split: if_splits)
  have 6: "d_byteCount t' = (if c_byteCount s' = 0 then 0 else 4 - c_byteCount s')"
    "c_byteCount s' \<noteq> 0 \<Longrightarrow>
        d_bytes t' = signed_drop_bit (8 * c_byteCount s') (M (c_nextBytes s'))"
    using sim by (simp_all add: t'_def fill_strings_frame fb sf ff sim_def)
  have 7: "d_buffer t' = take (c_current s') inp"
    by (simp add: t'_def sf ff)
  have "d_remaining t' = word_of_nat (length inp - c_current s) - word_of_nat bl"
    using sim by (simp add: t'_def fill_strings_frame fb sim_def)
  also have "\<dots> = word_of_nat (length inp - c_current s')"
  proof -
    have "length inp - c_current s = (length inp - c_current s') + bl"
      using fit by (simp add: sf ff)
    then show ?thesis by simp
  qed
  finally have 8: "d_remaining t' = word_of_nat (length inp - c_current s')" .
  have "sim inp M s' t'"
    unfolding sim_def using 1 2 3 4 5 6 7 8 by simp
  with run show ?thesis by blast
qed

lemma compress_loop_sim:
  assumes "packer_ok s" "c_current s \<le> length inp" "ls \<le> 16"
    "length inp < 2 ^ 32" "int (length inp) \<le> cap"
    "compress_loop inp outputEnd (2 ^ ls + 2) (2 ^ (16 - ls) + 2) ls s = Inr sf"
    "sim inp (flush sf) s t"
  shows "\<exists>tf. decompress_loop (flush sf) cap (word_of_int (2 ^ ls - 1)) ls
            (signed_drop_bit ls ((NOT (word_of_int (2 ^ ls - 1))) AND 0xffff)) t = Some (Inr tf) \<and>
          d_buffer tf = inp"
  using assms
proof (induction inp outputEnd "2 ^ ls + 2 :: nat" "2 ^ (16 - ls) + 2 :: nat" ls s
        arbitrary: t rule: compress_loop.induct)
  case (1 inp outputEnd ls s)
  let ?M = "flush sf"
  let ?om = "word_of_int (2 ^ ls - 1) :: 32 word"
  let ?lm = "signed_drop_bit ls ((NOT ?om) AND 0xffff)"
  note sim = \<open>sim inp ?M s t\<close>
  show ?case
  proof (cases "c_current s < length inp")
    case False
    with "1.prems" have eq: "c_current s = length inp" by simp
    with sim have "d_remaining t = 0" "d_buffer t = inp" by (simp_all add: sim_def)
    then show ?thesis
      by (subst decompress_loop.simps) simp
  next
    case True
    with "1.prems" obtain s'
      where step: "compress_step inp outputEnd (2 ^ ls + 2) (2 ^ (16 - ls) + 2) ls s = Inr s'"
        and loop: "compress_loop inp outputEnd (2 ^ ls + 2) (2 ^ (16 - ls) + 2) ls s' = Inr sf"
      by (subst (asm) compress_loop.simps) (auto split: sum.splits)
    note ok' = compress_step_ok [OF "1.prems"(1) True "1.prems"(3) step]
    from compress_loop_agrees [OF ok' "1.prems"(3) loop]
    have ag: "agrees s' ?M" by simp
    obtain bl bo
      where fm: "find_match inp (c_current s) (2 ^ ls + 2) (2 ^ (16 - ls) + 2) = (bl, bo)"
      by (cases "find_match inp (c_current s) (2 ^ ls + 2) (2 ^ (16 - ls) + 2)")
    have "\<exists>t'. decompress_step ?M cap ?om ls ?lm t = Inr t' \<and> sim inp ?M s' t'"
    proof (cases "2 < bl")
      case True
      show ?thesis
        by (rule step_sim_string [OF "1.prems"(1) \<open>c_current s < length inp\<close> "1.prems"(5)
              "1.prems"(3) fm True step ag sim])
    next
      case False
      show ?thesis
        by (rule step_sim_byte [OF "1.prems"(1) \<open>c_current s < length inp\<close> "1.prems"(5)
              fm False step ag sim])
    qed
    then obtain t' where t': "decompress_step ?M cap ?om ls ?lm t = Inr t'" "sim inp ?M s' t'"
      by blast
    from "1.hyps" [OF True step ok' "1.prems"(3,4,5) loop t'(2)]
    obtain tf where tf: "decompress_loop ?M cap ?om ls ?lm t' = Some (Inr tf)" "d_buffer tf = inp"
      by blast
    define n where "n = length inp - c_current s"
    have "0 < n" "n < 2 ^ 32"
      using True "1.prems"(4) by (simp_all add: n_def)
    then have "unat (word_of_nat n :: 32 word) \<noteq> 0"
      by (simp add: unat_of_nat)
    then have "(word_of_nat n :: 32 word) \<noteq> 0" by auto
    moreover have "d_remaining t = word_of_nat n"
      using sim by (simp only: sim_def n_def)
    ultimately have "d_remaining t \<noteq> 0" by simp
    then have "decompress_loop ?M cap ?om ls ?lm t = decompress_loop ?M cap ?om ls ?lm t'"
      by (subst decompress_loop.simps) (simp only: t'(1) if_True sum.case not_False_eq_True)
    with tf show ?thesis by simp
  qed
qed

lemma sint_small:
  assumes "0 \<le> x" "x < 2 ^ 31"
  shows "sint (word_of_int x :: 32 word) = x"
  using assms by (simp add: sint_sbintrunc' signed_take_bit_int_eq_self)

lemma compress_init_ok: "packer_ok (compress_init mem)"
  by (simp add: packer_ok_def flag_ok_def byte_ok_def string_ok_def distinct_ok_def
        compress_init_def)

lemma init_sim: "sim inp M (compress_init mem) (decompress_init (int (length inp)))"
  by (simp add: sim_def compress_init_def decompress_init_def)

lemma legal_parameters:
  assumes "2 \<le> k" "k \<le> 14"
  shows "(2 ^ k :: int) AND to_int32 (2 ^ k - 1) = 0" "\<not> (2 ^ k :: int) < 4"
    "\<not> (2 ^ k :: int) > 16384"
    "nat (2 ^ k + 2) = 2 ^ k + 2" "nat (65536 div 2 ^ k + 2) = 2 ^ (16 - k) + 2"
    "shift_loop (- 1) (2 ^ k) = Some (int k)"
proof -
  have "(2::int) ^ 2 \<le> 2 ^ k" "(2::int) ^ k \<le> 2 ^ 14"
    using assms by (simp_all only: power_increasing_iff one_less_numeral_iff semiring_norm)
  then show "\<not> (2 ^ k :: int) < 4" "\<not> (2 ^ k :: int) > 16384" by simp_all
  have "to_int32 (2 ^ k - 1) = 2 ^ k - 1"
    by (rule to_int32_id) (use \<open>(2::int) ^ 2 \<le> 2 ^ k\<close> \<open>(2::int) ^ k \<le> 2 ^ 14\<close> in simp_all)
  then show "(2 ^ k :: int) AND to_int32 (2 ^ k - 1) = 0" by (simp only: power_and_pred)
  show "nat (2 ^ k + 2) = 2 ^ k + 2" by (simp add: nat_add_distrib nat_power_eq)
  have "(65536::int) = 2 ^ (16 - k) * 2 ^ k"
    using assms by (simp add: power_add [symmetric])
  moreover have "((2::int) ^ (16 - k) * 2 ^ k) div 2 ^ k = 2 ^ (16 - k)" by simp
  ultimately have "(65536::int) div 2 ^ k = 2 ^ (16 - k)" by (simp only:)
  then show "nat (65536 div 2 ^ k + 2) = 2 ^ (16 - k) + 2"
    by (simp add: nat_add_distrib nat_power_eq)
  show "shift_loop (- 1) (2 ^ k) = Some (int k)"
    using shift_loop_power [of "- 1" k] by simp
qed

text \<open>What a call with a legal dictionary length comes to.\<close>

lemma compress_legal:
  assumes "2 \<le> k" "k \<le> 14" "8 \<le> outputLength"
  shows "compress inp output outputLength (2 ^ k) =
     (case compress_loop inp (nat outputLength) (2 ^ k + 2) (2 ^ (16 - k) + 2) k
             (compress_init (write_header output (int (length inp)) (2 ^ k))) of
        Inl s \<Rightarrow> Some (Inr (0, c_mem s))
      | Inr s \<Rightarrow> Some (Inr (sint (word_of_nat (c_next s) :: 32 word), flush s)))"
  using assms legal_parameters [OF assms(1,2)]
  by (simp add: compress_def Let_def)

lemma roundtrip_loop:
  assumes k: "2 \<le> k" "k \<le> 14" and len: "length inp < 2 ^ 31"
    and cap: "int (length inp) \<le> cap"
    and loop: "compress_loop inp outputEnd (2 ^ k + 2) (2 ^ (16 - k) + 2) k
             (compress_init (write_header output (int (length inp)) (2 ^ k))) = Inr sf"
  shows "decompress (flush sf) cap = Some (Inr (int (length inp), inp))"
proof -
  let ?mem = "write_header output (int (length inp)) (2 ^ k)"
  let ?M = "flush sf"
  have k16: "k \<le> 16" using k by simp
  have len32: "length inp < 2 ^ 32" using len by simp
  from compress_loop_agrees [OF compress_init_ok _ k16 loop]
  have ag: "agrees (compress_init ?mem) ?M" by (simp add: compress_init_def)
  have hdr: "?M 0 = word_of_int (int (length inp))" "?M 4 = word_of_int (2 ^ k)"
    using ag by (simp_all add: agrees_def is_open_def compress_init_def write_header_def)
  have "sint (word_of_int (int (length inp)) :: 32 word) = int (length inp)"
    by (rule sint_small) (use len in simp_all)
  moreover have "(2::int) ^ k \<le> 2 ^ 14"
    using k by (simp only: power_increasing_iff one_less_numeral_iff semiring_norm)
  then have "sint (word_of_int (2 ^ k) :: 32 word) = 2 ^ k"
    by (intro sint_small) simp_all
  ultimately have rh: "read_header ?M = (int (length inp), 2 ^ k)"
    by (simp add: read_header_def hdr)
  from compress_loop_sim [OF compress_init_ok _ k16 len32 cap loop init_sim]
  obtain tf where tf: "decompress_loop ?M cap (word_of_int (2 ^ k - 1)) k
            (signed_drop_bit k ((NOT (word_of_int (2 ^ k - 1))) AND 0xffff))
            (decompress_init (int (length inp))) = Some (Inr tf)" "d_buffer tf = inp"
    by (auto simp: compress_init_def)
  show ?thesis
    unfolding decompress_def rh prod.case Let_def legal_parameters(6) [OF k] option.case
    using cap tf by (simp del: of_int_diff)
qed

section \<open>The capacity of the destination\<close>

text \<open>The capacity only matters where a word is reserved.\<close>

lemma reserve_next:
  "reserve_bits outputEnd s = Inr s1 \<Longrightarrow> c_next s \<le> c_next s1 \<and> c_next s1 \<le> c_next s + 4"
  "reserve_strings outputEnd s = Inr s1 \<Longrightarrow> c_next s \<le> c_next s1 \<and> c_next s1 \<le> c_next s + 4"
  "reserve_bytes outputEnd s = Inr s1 \<Longrightarrow> c_next s \<le> c_next s1 \<and> c_next s1 \<le> c_next s + 4"
  by (auto simp: reserve_bits_def reserve_strings_def reserve_bytes_def split: if_splits)

lemma reserve_transfer:
  "reserve_bits outputEnd s = Inr s1 \<Longrightarrow> c_next s1 \<le> outputEnd' \<Longrightarrow>
     reserve_bits outputEnd' s = Inr s1"
  "reserve_strings outputEnd s = Inr s1 \<Longrightarrow> c_next s1 \<le> outputEnd' \<Longrightarrow>
     reserve_strings outputEnd' s = Inr s1"
  "reserve_bytes outputEnd s = Inr s1 \<Longrightarrow> c_next s1 \<le> outputEnd' \<Longrightarrow>
     reserve_bytes outputEnd' s = Inr s1"
  by (auto simp: reserve_bits_def reserve_strings_def reserve_bytes_def split: if_splits)

lemma reserve_total:
  "c_next s < outputEnd \<Longrightarrow> \<exists>s1. reserve_bits outputEnd s = Inr s1"
  "c_next s < outputEnd \<Longrightarrow> \<exists>s1. reserve_strings outputEnd s = Inr s1"
  "c_next s < outputEnd \<Longrightarrow> \<exists>s1. reserve_bytes outputEnd s = Inr s1"
  by (auto simp: reserve_bits_def reserve_strings_def reserve_bytes_def)

lemma pack_next:
  "c_next (emit_flag b s) = c_next s"
  "c_next (pack_string lengthShift bestLength bestOffset s) = c_next s"
  "c_next (pack_byte inp s) = c_next s"
  by (simp_all add: emit_flag_def pack_string_def pack_byte_def Let_def)

lemma compress_step_next:
  assumes "compress_step inp outputEnd maxOffset maxMatch lengthShift s = Inr s'"
  shows "c_next s \<le> c_next s'" "c_next s' \<le> c_next s + 8"
proof -
  obtain bl bo where fm: "find_match inp (c_current s) maxOffset maxMatch = (bl, bo)"
    by (cases "find_match inp (c_current s) maxOffset maxMatch")
  have "c_next s \<le> c_next s' \<and> c_next s' \<le> c_next s + 8"
  proof (cases "2 < bl")
    case True
    from compress_step_string [OF assms fm True] obtain s1 s2
      where s: "reserve_bits outputEnd s = Inr s1"
        "reserve_strings outputEnd (emit_flag True s1) = Inr s2"
        "s' = pack_string lengthShift bl bo s2"
      by blast
    from reserve_next(1) [OF s(1)] reserve_next(2) [OF s(2)] show ?thesis
      by (simp add: s(3) pack_next)
  next
    case False
    from compress_step_byte [OF assms fm False] obtain s1 s2
      where s: "reserve_bits outputEnd s = Inr s1"
        "reserve_bytes outputEnd (emit_flag False s1) = Inr s2"
        "s' = pack_byte inp s2"
      by blast
    from reserve_next(1) [OF s(1)] reserve_next(3) [OF s(2)] show ?thesis
      by (simp add: s(3) pack_next)
  qed
  then show "c_next s \<le> c_next s'" "c_next s' \<le> c_next s + 8" by simp_all
qed

lemma compress_step_transfer:
  assumes "compress_step inp outputEnd maxOffset maxMatch lengthShift s = Inr s'"
    "c_next s' \<le> outputEnd'"
  shows "compress_step inp outputEnd' maxOffset maxMatch lengthShift s = Inr s'"
proof -
  obtain bl bo where fm: "find_match inp (c_current s) maxOffset maxMatch = (bl, bo)"
    by (cases "find_match inp (c_current s) maxOffset maxMatch")
  show ?thesis
  proof (cases "2 < bl")
    case True
    from compress_step_string [OF assms(1) fm True] obtain s1 s2
      where s: "reserve_bits outputEnd s = Inr s1"
        "reserve_strings outputEnd (emit_flag True s1) = Inr s2"
        "s' = pack_string lengthShift bl bo s2"
      by blast
    have n2: "c_next s2 \<le> outputEnd'" using assms(2) by (simp add: s(3) pack_next)
    then have n1: "c_next s1 \<le> outputEnd'"
      using reserve_next(2) [OF s(2)] by (simp add: pack_next)
    show ?thesis
      using True
      by (simp add: compress_step_def fm reserve_transfer(1) [OF s(1) n1]
            reserve_transfer(2) [OF s(2) n2] s(3))
  next
    case False
    from compress_step_byte [OF assms(1) fm False] obtain s1 s2
      where s: "reserve_bits outputEnd s = Inr s1"
        "reserve_bytes outputEnd (emit_flag False s1) = Inr s2"
        "s' = pack_byte inp s2"
      by blast
    have n2: "c_next s2 \<le> outputEnd'" using assms(2) by (simp add: s(3) pack_next)
    then have n1: "c_next s1 \<le> outputEnd'"
      using reserve_next(3) [OF s(2)] by (simp add: pack_next)
    show ?thesis
      using False
      by (simp add: compress_step_def fm reserve_transfer(1) [OF s(1) n1]
            reserve_transfer(3) [OF s(2) n2] s(3))
  qed
qed

lemma compress_step_total:
  assumes "c_next s + 4 < outputEnd"
  shows "\<exists>s'. compress_step inp outputEnd maxOffset maxMatch lengthShift s = Inr s'"
proof -
  obtain bl bo where fm: "find_match inp (c_current s) maxOffset maxMatch = (bl, bo)"
    by (cases "find_match inp (c_current s) maxOffset maxMatch")
  from assms reserve_total(1) [of s outputEnd] obtain s1
    where s1: "reserve_bits outputEnd s = Inr s1" by auto
  have n: "c_next (emit_flag b s1) < outputEnd" for b
    using reserve_next(1) [OF s1] assms by (simp add: pack_next)
  show ?thesis
  proof (cases "2 < bl")
    case True
    from reserve_total(2) [OF n [of True]] obtain s2
      where "reserve_strings outputEnd (emit_flag True s1) = Inr s2" by blast
    with True show ?thesis by (simp add: compress_step_def fm s1)
  next
    case False
    from reserve_total(3) [OF n [of False]] obtain s2
      where "reserve_bytes outputEnd (emit_flag False s1) = Inr s2" by blast
    with False show ?thesis by (simp add: compress_step_def fm s1)
  qed
qed

lemma compress_loop_transfer:
  assumes "compress_loop inp outputEnd maxOffset maxMatch lengthShift s = Inr sf"
    "c_next sf \<le> outputEnd'"
  shows "compress_loop inp outputEnd' maxOffset maxMatch lengthShift s = Inr sf \<and>
         c_next s \<le> c_next sf"
  using assms
proof (induction inp outputEnd maxOffset maxMatch lengthShift s rule: compress_loop.induct)
  case (1 inp outputEnd maxOffset maxMatch lengthShift s)
  show ?case
  proof (cases "c_current s < length inp")
    case False
    with "1.prems" have "sf = s" by (subst (asm) compress_loop.simps) simp
    with False show ?thesis by (subst compress_loop.simps) simp
  next
    case True
    with "1.prems" obtain s'
      where step: "compress_step inp outputEnd maxOffset maxMatch lengthShift s = Inr s'"
        and loop: "compress_loop inp outputEnd maxOffset maxMatch lengthShift s' = Inr sf"
      by (subst (asm) compress_loop.simps) (auto split: sum.splits)
    from "1.IH" [OF True step loop "1.prems"(2)]
    have ih: "compress_loop inp outputEnd' maxOffset maxMatch lengthShift s' = Inr sf"
      "c_next s' \<le> c_next sf" by simp_all
    from ih(2) "1.prems"(2) have "c_next s' \<le> outputEnd'" by simp
    from compress_step_transfer [OF step this] ih True compress_step_next(1) [OF step]
    show ?thesis by (subst compress_loop.simps) simp
  qed
qed

lemma compress_loop_total:
  assumes "c_next s \<le> 8 + 8 * c_current s" "8 + 8 * length inp \<le> outputEnd"
  shows "\<exists>sf. compress_loop inp outputEnd maxOffset maxMatch lengthShift s = Inr sf"
  using assms
proof (induction inp outputEnd maxOffset maxMatch lengthShift s rule: compress_loop.induct)
  case (1 inp outputEnd maxOffset maxMatch lengthShift s)
  show ?case
  proof (cases "c_current s < length inp")
    case False
    then show ?thesis by (subst compress_loop.simps) simp
  next
    case True
    with "1.prems" have "c_next s + 4 < outputEnd" by linarith
    from compress_step_total [OF this] obtain s'
      where step: "compress_step inp outputEnd maxOffset maxMatch lengthShift s = Inr s'"
      by blast
    note cur = compress_step_current [OF step]
    have "c_next s' \<le> 8 + 8 * c_current s'"
      using compress_step_next(2) [OF step] cur "1.prems"(1) by linarith
    then obtain sf
      where "compress_loop inp outputEnd maxOffset maxMatch lengthShift s' = Inr sf"
      using "1.IH" [OF True step] "1.prems"(2) by blast
    with True step show ?thesis by (subst compress_loop.simps) simp
  qed
qed

text \<open>A call with a legal dictionary length and a destination that holds the result.\<close>

lemma compress_succeeds:
  assumes k: "2 \<le> k" "k \<le> 14"
  obtains sf where
    "compress_loop inp (8 + 8 * length inp) (2 ^ k + 2) (2 ^ (16 - k) + 2) k
       (compress_init (write_header output (int (length inp)) (2 ^ k))) = Inr sf"
    "8 \<le> c_next sf"
    "\<And>outputLength. int (c_next sf) \<le> outputLength \<Longrightarrow>
       compress inp output outputLength (2 ^ k) =
         Some (Inr (sint (word_of_nat (c_next sf) :: 32 word), flush sf))"
proof -
  let ?init = "compress_init (write_header output (int (length inp)) (2 ^ k))"
  have "c_next ?init \<le> 8 + 8 * c_current ?init" by (simp add: compress_init_def)
  from compress_loop_total [OF this order_refl] obtain sf
    where loop: "compress_loop inp (8 + 8 * length inp) (2 ^ k + 2) (2 ^ (16 - k) + 2) k ?init
                   = Inr sf"
    by blast
  have k16: "k \<le> 16" using k by simp
  from compress_loop_agrees [OF compress_init_ok _ k16 loop]
  have "packer_ok sf" by (simp add: compress_init_def)
  then have n8: "8 \<le> c_next sf" by (simp add: packer_ok_def)
  have "compress inp output outputLength (2 ^ k) =
         Some (Inr (sint (word_of_nat (c_next sf) :: 32 word), flush sf))"
    if "int (c_next sf) \<le> outputLength" for outputLength
  proof -
    from that n8 have ol: "8 \<le> outputLength" "c_next sf \<le> nat outputLength" by linarith+
    from compress_loop_transfer [OF loop ol(2)]
    show ?thesis by (simp add: compress_legal [OF k ol(1)])
  qed
  with loop n8 show thesis by (rule that)
qed

lemma compress_success_loop:
  assumes k: "2 \<le> k" "k \<le> 14"
    and c: "compress inp output outputLength (2 ^ k) = Some (Inr (n, m))" and n: "n \<noteq> 0"
  obtains sf where
    "compress_loop inp (nat outputLength) (2 ^ k + 2) (2 ^ (16 - k) + 2) k
       (compress_init (write_header output (int (length inp)) (2 ^ k))) = Inr sf"
    "m = flush sf"
proof -
  have ol: "8 \<le> outputLength"
    using c legal_parameters [OF k] by (auto simp: compress_def split: if_splits)
  from c n show thesis
    unfolding compress_legal [OF k ol] by (auto split: sum.splits intro: that)
qed

text \<open>An input that is emitted as literals only.\<close>

lemma no_repeat_literal:
  assumes nr: "no_repeat inp maxOffset"
    and fm: "find_match inp current maxOffset maxMatch = (bl, bo)"
  shows "\<not> 2 < bl"
proof
  assume bl: "2 < bl"
  from find_match_result [OF fm] obtain s
    where s: "window_start current maxOffset \<le> s" "s \<le> current"
      "bl = match_length inp current maxMatch s"
    by blast
  have a: "s + 3 \<le> current"
    using match_length_le_offset [of inp current maxMatch s] bl s(3) by linarith
  have b: "current + 3 \<le> length inp"
    using match_length_le_rest [of inp current maxMatch s] bl s(3) by linarith
  have c: "current - s \<le> maxOffset"
    using window_start_offset [of current maxOffset] s(1) by linarith
  have e: "inp ! (s + k) = inp ! (current + k)" if "k < 3" for k
    using match_length_equal [of k inp current maxMatch s] that bl s(3) by simp
  from e [of 0] e [of 1] e [of 2]
  have eq: "inp ! s = inp ! current" "inp ! (s + 1) = inp ! (current + 1)"
        "inp ! (s + 2) = inp ! (current + 2)" by simp_all
  have m1: "current \<in> set [0..<length inp]" and m2: "s \<in> set [0..<current]"
    using a b by simp_all
  from nr have "\<forall>c\<in>set [0..<length inp]. \<forall>s\<in>set [0..<c].
        \<not> (c - s \<le> maxOffset \<and> c + 3 \<le> length inp \<and>
           inp ! s = inp ! c \<and> inp ! (s + 1) = inp ! (c + 1) \<and> inp ! (s + 2) = inp ! (c + 2))"
    unfolding no_repeat_def list_all_iff .
  from this [rule_format, OF m1 m2] b c eq show False by simp
qed

lemma ceil32_Suc: "(Suc c + 31) div 32 = (c + 31) div 32 + (if c mod 32 = 0 then 1 else 0)"
proof -
  have "Suc (c + 31) = c + 32" by simp
  then have h: "Suc (c + 31) mod 32 = c mod 32" by (simp only: mod_add_self2)
  have "(Suc c + 31) div 32 = Suc (c + 31) div 32" by (simp only: add_Suc)
  also have "\<dots> = (if Suc (c + 31) mod 32 = 0 then Suc ((c + 31) div 32) else (c + 31) div 32)"
    by (rule div_Suc)
  also have "\<dots> = (c + 31) div 32 + (if c mod 32 = 0 then 1 else 0)"
    unfolding h by simp
  finally show ?thesis .
qed

lemma ceil4_Suc: "(Suc c + 3) div 4 = (c + 3) div 4 + (if c mod 4 = 0 then 1 else 0)"
proof -
  have "Suc (c + 3) = c + 4" by simp
  then have h: "Suc (c + 3) mod 4 = c mod 4" by (simp only: mod_add_self2)
  have "(Suc c + 3) div 4 = Suc (c + 3) div 4" by (simp only: add_Suc)
  also have "\<dots> = (if Suc (c + 3) mod 4 = 0 then Suc ((c + 3) div 4) else (c + 3) div 4)"
    by (rule div_Suc)
  also have "\<dots> = (c + 3) div 4 + (if c mod 4 = 0 then 1 else 0)"
    unfolding h by simp
  finally show ?thesis .
qed

lemma literal_size_Suc:
  "literal_size (Suc c) =
     literal_size c + (if c mod 32 = 0 then 4 else 0) + (if c mod 4 = 0 then 4 else 0)"
  unfolding literal_size_def ceil32_Suc ceil4_Suc by simp

lemma literal_size_mono: "c \<le> n \<Longrightarrow> literal_size c \<le> literal_size n"
  unfolding literal_size_def by (simp add: div_le_mono add_mono)

lemma ceil32: "(n + 31) div 32 = n div 32 + (if n mod 32 = 0 then 0 else 1)" for n :: nat
proof (cases n)
  case 0
  then show ?thesis by simp
next
  case (Suc c)
  have "Suc c + 31 = c + 32" by simp
  then have "(Suc c + 31) div 32 = c div 32 + 1" by (simp only: div_add_self2)
  then show ?thesis unfolding Suc by (simp add: div_Suc)
qed

lemma ceil4: "(n + 3) div 4 = n div 4 + (if n mod 4 = 0 then 0 else 1)" for n :: nat
proof (cases n)
  case 0
  then show ?thesis by simp
next
  case (Suc c)
  have "Suc c + 3 = c + 4" by simp
  then have "(Suc c + 3) div 4 = c div 4 + 1" by (simp only: div_add_self2)
  then show ?thesis unfolding Suc by (simp add: div_Suc)
qed

lemma mod32_mod4: "c mod 32 = 0 \<Longrightarrow> c mod 4 = (0::nat)"
proof -
  assume "c mod 32 = 0"
  then have "32 dvd c" by (simp add: mod_eq_0_iff_dvd)
  moreover have "(4::nat) dvd 32" by simp
  ultimately have "4 dvd c" by (rule dvd_trans [rotated])
  then show ?thesis by (simp add: mod_eq_0_iff_dvd)
qed


lemma cells_distinct: "flag_word_cell g \<noteq> byte_word_cell j"
proof -
  define a where "a = j div 8"
  define b where "b = j mod 8"
  have b: "b < 8" unfolding b_def by simp
  have "8 + 36 * g \<noteq> 12 + 36 * a + 4 * b"
  proof (cases "g \<le> a")
    case True
    then show ?thesis by linarith
  next
    case False
    then have "a + 1 \<le> g" by simp
    with b show ?thesis by linarith
  qed
  then show ?thesis unfolding flag_word_cell_def byte_word_cell_def a_def b_def .
qed

lemma byte_word_cell_inj:
  assumes "byte_word_cell i = byte_word_cell j"
  shows "i = j"
proof -
  define a where "a = i div 8"
  define b where "b = i mod 8"
  define a' where "a' = j div 8"
  define b' where "b' = j mod 8"
  have b: "b < 8" "b' < 8" unfolding b_def b'_def by simp_all
  have i: "i = 8 * a + b" and j: "j = 8 * a' + b'"
    unfolding a_def b_def a'_def b'_def by simp_all
  from assms have e: "36 * a + 4 * b = 36 * a' + 4 * b'"
    unfolding byte_word_cell_def a_def b_def a'_def b'_def by simp
  have "a = a'"
  proof (rule ccontr)
    assume "a \<noteq> a'"
    then consider "a + 1 \<le> a'" | "a' + 1 \<le> a" by linarith
    then show False
    proof cases
      case 1
      with e b show False by linarith
    next
      case 2
      with e b show False by linarith
    qed
  qed
  with e have "b = b'" by simp
  with \<open>a = a'\<close> show ?thesis unfolding i j by simp
qed

lemma literal_words_Suc_byte:
  "literal_words mem inp F (Suc B) = (literal_words mem inp F B)(byte_word_cell B := literal_word inp B)"
  by (simp add: literal_words_def)

lemma literal_words_Suc_flag:
  "literal_words mem inp (Suc F) B = (literal_words mem inp F B)(flag_word_cell F := 0)"
proof (induction B)
  case 0
  show ?case by (simp add: literal_words_def)
next
  case (Suc B)
  show ?case
    unfolding literal_words_Suc_byte Suc
    by (rule fun_upd_twist) (rule cells_distinct)
qed

lemma size_flag_cell:
  assumes "c mod 32 = 0"
  shows "literal_size c = flag_word_cell (c div 32)"
proof -
  define a where "a = c div 32"
  have c: "c = 32 * a" using assms unfolding a_def by (simp add: mod_eq_0_iff_dvd)
  have "(32 * a + 31) div 32 = a" "(32 * a + 3) div 4 = 8 * a" by simp_all
  then show ?thesis unfolding literal_size_def flag_word_cell_def a_def [symmetric] c by simp
qed

lemma size_byte_cell:
  assumes "c mod 4 = 0"
  shows "literal_size c + (if c mod 32 = 0 then 4 else 0) = byte_word_cell (c div 4)"
proof -
  define j where "j = c div 4"
  define a where "a = j div 8"
  define b where "b = j mod 8"
  have c: "c = 4 * j" using assms unfolding j_def by (simp add: mod_eq_0_iff_dvd)
  have j: "j = 8 * a + b" and b: "b < 8" unfolding a_def b_def by simp_all
  have c': "c = 32 * a + 4 * b" unfolding c j by simp
  have 1: "(c + 3) div 4 = j" unfolding c by simp
  have "(4 * b + 31) div 32 = (if b = 0 then 0 else 1)"
  proof (cases "b = 0")
    case True
    then show ?thesis by simp
  next
    case False
    have "(4 * b + 31) div 32 = 1"
      by (rule div_nat_eqI) (use b False in simp_all)
    with False show ?thesis by simp
  qed
  moreover have "(32 * a + (4 * b + 31)) div 32 = a + (4 * b + 31) div 32"
    by (simp only: div_mult_self4)
  ultimately have 2: "(c + 31) div 32 = a + (if b = 0 then 0 else 1)"
    unfolding c' by (simp only: add.assoc)
  have "(32 * a + 4 * b) mod 32 = 4 * b mod 32" by (simp only: mod_mult_self4)
  also have "\<dots> = 4 * b" using b by simp
  finally have 3: "c mod 32 = 0 \<longleftrightarrow> b = 0" unfolding c' by simp
  show ?thesis
    unfolding literal_size_def byte_word_cell_def 1 2 3 j_def [symmetric] a_def [symmetric]
      b_def [symmetric]
    by (simp add: j)
qed


lemma byte_at_take:
  "n \<le> length inp \<Longrightarrow> byte_at (take n inp) i = (if i < n then ucast (inp ! i) else 0)"
  by (simp add: byte_at_def)

lemma literal_word_take:
  assumes "4 * j + 4 \<le> n" "n \<le> length inp"
  shows "literal_word (take n inp) j = literal_word inp j"
  using assms by (simp add: literal_word_def byte_at_take) (simp add: byte_at_def)

lemma literal_word_Suc:
  assumes "c < length inp"
  shows "literal_word (take (Suc c) inp) (c div 4) =
         (if c mod 4 = 0 then 0 else literal_word (take c inp) (c div 4)) +
         push_bit (c mod 4 * 8) (ucast (inp ! c))"
proof -
  define j where "j = c div 4"
  define r where "r = c mod 4"
  have c: "c = 4 * j + r" and r: "r < 4" unfolding j_def r_def by simp_all
  have t0: "byte_at (take c inp) i = (if i < c then ucast (inp ! i) else 0)" for i
    using assms by (simp add: byte_at_take)
  have t1: "byte_at (take (Suc c) inp) i = (if i < Suc c then ucast (inp ! i) else 0)" for i
    using assms by (simp add: byte_at_take)
  from r consider "r = 0" | "r = 1" | "r = 2" | "r = 3" by linarith
  then have "literal_word (take (Suc c) inp) j =
         (if r = 0 then 0 else literal_word (take c inp) j) + push_bit (r * 8) (ucast (inp ! c))"
  proof cases
    case 1
    with c have "c = 4 * j" by simp
    with 1 assms show ?thesis by (simp add: literal_word_def byte_at_take)
  next
    case 2
    with c have "c = 4 * j + 1" by simp
    with 2 assms show ?thesis by (simp add: literal_word_def byte_at_take)
  next
    case 3
    with c have "c = 4 * j + 2" by simp
    with 3 assms show ?thesis by (simp add: literal_word_def byte_at_take)
  next
    case 4
    with c have "c = 4 * j + 3" by simp
    with 4 assms show ?thesis by (simp add: literal_word_def byte_at_take)
  qed
  then show ?thesis unfolding j_def r_def .
qed

lemma literal_step:
  assumes cur: "c_current s < length inp"
    and inv: "literal_state mem inp s"
    and cap: "literal_size (length inp) \<le> outputEnd"
    and nr: "no_repeat inp maxOffset"
  shows "\<exists>s'. compress_step inp outputEnd maxOffset maxMatch lengthShift s = Inr s' \<and>
           c_current s' = Suc (c_current s) \<and> literal_state mem inp s'"
proof -
  let ?c = "c_current s"
  from inv have nx: "c_next s = literal_size ?c"
    and bm: "c_bitMask s = (if ?c mod 32 = 0 then 0 else 2 ^ (?c mod 32))"
    and bc: "c_byteCount s = ?c mod 4"
    and sc: "c_stringCount s = 0"
    and bits: "c_bits s = 0"
    and nb: "?c mod 32 \<noteq> 0 \<Longrightarrow> c_nextBits s = flag_word_cell (?c div 32)"
    and nby: "?c mod 4 \<noteq> 0 \<Longrightarrow> c_nextBytes s = byte_word_cell (?c div 4)"
    and byt: "?c mod 4 \<noteq> 0 \<Longrightarrow> c_bytes s = literal_word (take ?c inp) (?c div 4)"
    and mem: "c_mem s = literal_words mem inp (?c div 32) (?c div 4)"
    unfolding literal_state_def by simp_all
  obtain bl bo where fm: "find_match inp ?c maxOffset maxMatch = (bl, bo)"
    by (cases "find_match inp ?c maxOffset maxMatch")
  note lit = no_repeat_literal [OF nr fm]
  have top: "literal_size (Suc ?c) \<le> outputEnd"
    using literal_size_mono [of "Suc ?c" "length inp"] cur cap by simp
  note sz = literal_size_Suc [of ?c]
  have "?c mod 32 < 32" by simp
  then have "(2 ^ (?c mod 32) :: 32 word) \<noteq> 0" by (simp only: exp_eq_0_iff not_le)
  then have nz: "c_bitMask s = 0 \<longleftrightarrow> ?c mod 32 = 0" using bm by simp
  have "\<exists>s1. reserve_bits outputEnd s = Inr s1"
  proof (cases "?c mod 32 = 0")
    case True
    then have "c_next s < outputEnd" using top sz nx by simp
    then show ?thesis by (rule reserve_total(1))
  next
    case False
    with nz have "c_bitMask s \<noteq> 0" by simp
    then show ?thesis by (simp add: reserve_bits_def)
  qed
  then obtain s1 where s1: "reserve_bits outputEnd s = Inr s1" by blast
  note ff = flag_step_frame [OF s1, of False]
  let ?f = "emit_flag False s1"
  have nf: "c_next ?f = literal_size ?c + (if ?c mod 32 = 0 then 4 else 0)"
    using nx by (simp add: ff nz)
  have "\<exists>s2. reserve_bytes outputEnd ?f = Inr s2"
  proof (cases "?c mod 4 = 0")
    case True
    then have "c_next ?f < outputEnd" using top sz nf by simp
    then show ?thesis by (rule reserve_total(3))
  next
    case False
    then show ?thesis using bc by (simp add: reserve_bytes_def ff)
  qed
  then obtain s2 where s2: "reserve_bytes outputEnd ?f = Inr s2" by blast
  note bf = byte_step_frame [OF s2, of inp]
  let ?s' = "pack_byte inp s2"
  have step: "compress_step inp outputEnd maxOffset maxMatch lengthShift s = Inr ?s'"
    using lit by (simp add: compress_step_def fm s1 s2)
  have 1: "c_current ?s' = Suc ?c" by (simp add: bf ff)
  have 2: "c_next ?s' = literal_size (Suc ?c)"
    by (simp add: bf(8) ff(2) nf sz bc)
  have "(if c_bitMask s = 0 then 1 else c_bitMask s) = 2 ^ (?c mod 32)"
    using bm by (simp add: nz)
  then have "c_bitMask ?s' = push_bit 1 (2 ^ (?c mod 32))"
    by (simp only: bf ff)
  also have "\<dots> = (2 ^ Suc (?c mod 32) :: 32 word)" by simp
  also have "\<dots> = (if Suc ?c mod 32 = 0 then 0 else 2 ^ (Suc ?c mod 32))"
  proof (cases "?c mod 32 = 31")
    case True
    then have "Suc ?c mod 32 = 0" by (simp add: mod_Suc)
    with True show ?thesis by simp
  next
    case False
    then have "Suc ?c mod 32 = Suc (?c mod 32)" by (simp add: mod_Suc)
    then show ?thesis by (simp del: power_Suc)
  qed
  finally have 3: "c_bitMask ?s' = (if Suc ?c mod 32 = 0 then 0 else 2 ^ (Suc ?c mod 32))" .
  have 4: "c_byteCount ?s' = Suc ?c mod 4"
    using bc by (simp add: bf ff mod_Suc)
  have 5: "c_stringCount ?s' = 0" using sc by (simp add: bf ff)
  have fv: "c_bits ?f = 0"
    using flag_step_value [OF s1, of False] bits by simp
  have 6: "c_bits ?s' = 0" by (simp only: bf(3) fv)
  have nbf: "c_nextBits ?f = flag_word_cell (?c div 32)"
  proof (cases "?c mod 32 = 0")
    case True
    then show ?thesis using nz nx size_flag_cell [OF True] by (simp add: ff(9))
  next
    case False
    then show ?thesis using nz nb by (simp add: ff(9))
  qed
  have 7: "c_nextBits ?s' = flag_word_cell (Suc ?c div 32)" if "Suc ?c mod 32 \<noteq> 0"
    using that by (simp only: bf(4) nbf div_Suc if_False)
  have bcf: "c_byteCount ?f = ?c mod 4" by (simp only: ff(2) bc)
  have nbyf: "c_nextBytes ?s' = byte_word_cell (?c div 4)"
  proof (cases "?c mod 4 = 0")
    case True
    then show ?thesis using size_byte_cell [OF True] by (simp add: bf(9) bcf nf)
  next
    case False
    then show ?thesis using nby by (simp add: bf(9) bcf ff(4))
  qed
  have "c_bytes ?s' = (if ?c mod 4 = 0 then 0 else c_bytes s) +
      push_bit (?c mod 4 * 8) (ucast (inp ! ?c))"
    using byte_step_value(1) [OF s2, of inp] by (simp only: bcf ff(1,3))
  also have "\<dots> = (if ?c mod 4 = 0 then 0 else literal_word (take ?c inp) (?c div 4)) +
      push_bit (?c mod 4 * 8) (ucast (inp ! ?c))"
    using byt by simp
  also have "\<dots> = literal_word (take (Suc ?c) inp) (?c div 4)"
    by (rule literal_word_Suc [OF cur, symmetric])
  finally have byf: "c_bytes ?s' = literal_word (take (Suc ?c) inp) (?c div 4)" .
  have 8: "c_nextBytes ?s' = byte_word_cell (Suc ?c div 4) \<and>
      c_bytes ?s' = literal_word (take (Suc ?c) inp) (Suc ?c div 4)" if "Suc ?c mod 4 \<noteq> 0"
    using that by (simp only: nbyf byf div_Suc if_False simp_thms)
  have "?c mod 32 < 32" by simp
  have "Suc ?c mod 32 < 32" by simp
  then have "(2 ^ (Suc ?c mod 32) :: 32 word) \<noteq> 0" by (simp only: exp_eq_0_iff not_le)
  then have nz': "c_bitMask ?f = 0 \<longleftrightarrow> Suc ?c mod 32 = 0"
    using 3 by (simp add: bf(2))
  have memf: "c_mem ?f = (if Suc ?c mod 32 = 0
      then (literal_words mem inp (?c div 32) (?c div 4))(flag_word_cell (?c div 32) := 0)
      else literal_words mem inp (?c div 32) (?c div 4))"
    using flag_step_mem [OF s1, of False] by (simp only: nz' nbf fv mem)
  have full: "c_byteCount ?f = 3 \<longleftrightarrow> Suc ?c mod 4 = 0"
    unfolding bcf by (simp add: mod_Suc)
  have mems: "c_mem ?s' = (if Suc ?c mod 4 = 0
      then (c_mem ?f)(byte_word_cell (?c div 4) := literal_word (take (Suc ?c) inp) (?c div 4))
      else c_mem ?f)"
    using byte_step_value(2) [OF s2, of inp] by (simp only: full nbyf byf)
  have 9: "c_mem ?s' = literal_words mem inp (Suc ?c div 32) (Suc ?c div 4)"
  proof (cases "Suc ?c mod 4 = 0")
    case False
    have "Suc ?c mod 32 \<noteq> 0"
    proof
      assume "Suc ?c mod 32 = 0"
      then have "Suc ?c mod 4 = 0" by (rule mod32_mod4)
      with False show False ..
    qed
    with False show ?thesis by (simp only: mems memf div_Suc if_False)
  next
    case True
    then have "Suc ?c div 4 = Suc (?c div 4)" by (simp only: div_Suc refl if_True)
    moreover have "4 * (Suc ?c div 4) + Suc ?c mod 4 = Suc ?c" by (rule mult_div_mod_eq)
    ultimately have "4 * Suc (?c div 4) = Suc ?c" using True by (simp only: add_0_right)
    then have "4 * (?c div 4) + 4 \<le> Suc ?c" by simp
    moreover have "Suc ?c \<le> length inp" using cur by simp
    ultimately have lw: "literal_word (take (Suc ?c) inp) (?c div 4) = literal_word inp (?c div 4)"
      by (rule literal_word_take)
    show ?thesis
    proof (cases "Suc ?c mod 32 = 0")
      case False
      with True show ?thesis
        by (simp only: mems memf div_Suc if_False if_True simp_thms lw literal_words_Suc_byte)
    next
      case t: True
      with True show ?thesis
        by (simp only: mems memf div_Suc if_True simp_thms lw literal_words_Suc_byte
              literal_words_Suc_flag)
    qed
  qed
  have "literal_state mem inp ?s'"
    unfolding literal_state_def 1 using 2 3 4 5 6 7 8 9 by (intro conjI impI) simp_all
  with step 1 show ?thesis by blast
qed

lemma literal_loop:
  assumes "c_current s \<le> length inp"
    and "literal_state mem inp s"
    and "literal_size (length inp) \<le> outputEnd"
    and "no_repeat inp maxOffset"
  shows "\<exists>sf. compress_loop inp outputEnd maxOffset maxMatch lengthShift s = Inr sf \<and>
           c_current sf = length inp \<and> literal_state mem inp sf"
  using assms
proof (induction inp outputEnd maxOffset maxMatch lengthShift s rule: compress_loop.induct)
  case (1 inp outputEnd maxOffset maxMatch lengthShift s)
  show ?case
  proof (cases "c_current s < length inp")
    case False
    with "1.prems"(1) have "c_current s = length inp" by simp
    with "1.prems"(2) False show ?thesis by (subst compress_loop.simps) simp
  next
    case True
    from literal_step [OF True "1.prems"(2-4)] obtain s'
      where s': "compress_step inp outputEnd maxOffset maxMatch lengthShift s = Inr s'"
        "c_current s' = Suc (c_current s)" "literal_state mem inp s'"
      by blast
    have "c_current s' \<le> length inp" using s'(2) True by simp
    from "1.IH" [OF True s'(1) this s'(3) "1.prems"(3,4)] obtain sf
      where "compress_loop inp outputEnd maxOffset maxMatch lengthShift s' = Inr sf"
        "c_current sf = length inp" "literal_state mem inp sf"
      by blast
    with True s'(1) show ?thesis by (subst compress_loop.simps) simp
  qed
qed


lemma literal_init: "literal_state mem inp (compress_init mem)"
  by (simp add: literal_state_def compress_init_def literal_size_def literal_words_def)

lemma literal_size_dvd: "4 dvd literal_size n"
  unfolding literal_size_def by simp

lemma literal_cells:
  assumes "8 \<le> p" "p < literal_size n" "4 dvd p"
  shows "(\<exists>g<(n + 31) div 32. p = flag_word_cell g) \<or>
         (\<exists>j<(n + 3) div 4. p = byte_word_cell j)"
  using assms
proof (induction n)
  case 0
  then show ?case by (simp add: literal_size_def)
next
  case (Suc c)
  note c32 = ceil32_Suc [of c] and c4 = ceil4_Suc [of c]
  show ?case
  proof (cases "p < literal_size c")
    case True
    from Suc.IH [OF Suc.prems(1) True Suc.prems(3)] show ?thesis
    proof
      assume "\<exists>g<(c + 31) div 32. p = flag_word_cell g"
      then obtain g where "g < (c + 31) div 32" "p = flag_word_cell g" by blast
      then have "g < (Suc c + 31) div 32 \<and> p = flag_word_cell g" by (simp add: c32)
      then show ?thesis by blast
    next
      assume "\<exists>j<(c + 3) div 4. p = byte_word_cell j"
      then obtain j where "j < (c + 3) div 4" "p = byte_word_cell j" by blast
      then have "j < (Suc c + 3) div 4 \<and> p = byte_word_cell j" by (simp add: c4)
      then show ?thesis by blast
    qed
  next
    case False
    from Suc.prems(3) obtain q where q: "p = 4 * q" by (auto elim: dvdE)
    from literal_size_dvd [of c] obtain l where l: "literal_size c = 4 * l" by (auto elim: dvdE)
    note sz = literal_size_Suc [of c]
    have g32: "c div 32 < (Suc c + 31) div 32" if "c mod 32 = 0"
      using that by (simp add: c32 ceil32)
    have g4: "c div 4 < (Suc c + 3) div 4" if "c mod 4 = 0"
      using that by (simp add: c4 ceil4)
    show ?thesis
    proof (cases "c mod 4 = 0")
      case c4z: True
      show ?thesis
      proof (cases "c mod 32 = 0")
        case True
        from False Suc.prems(2) have "4 * l \<le> 4 * q" "4 * q < 4 * l + 8"
          using sz True c4z by (simp_all add: q l)
        then have "q = l \<or> q = l + 1" by linarith
        then have "p = literal_size c \<or> p = literal_size c + 4" by (auto simp: q l)
        then have "p = flag_word_cell (c div 32) \<or> p = byte_word_cell (c div 4)"
          using size_flag_cell [OF True] size_byte_cell [OF c4z] True by auto
        with g32 [OF True] g4 [OF c4z] show ?thesis by blast
      next
        case nz: False
        from False Suc.prems(2) have "4 * l \<le> 4 * q" "4 * q < 4 * l + 4"
          using sz nz c4z by (simp_all add: q l)
        then have "q = l" by linarith
        then have "p = literal_size c" by (simp add: q l)
        then have "p = byte_word_cell (c div 4)"
          using size_byte_cell [OF c4z] nz by simp
        with g4 [OF c4z] show ?thesis by blast
      qed
    next
      case nz4: False
      then have "c mod 32 \<noteq> 0" using mod32_mod4 [of c] by auto
      with nz4 sz have "literal_size (Suc c) = literal_size c" by simp
      with False Suc.prems(2) show ?thesis by simp
    qed
  qed
qed

section \<open>The claims\<close>

text \<open>
  Claim C1. With a legal dictionary length and an input whose length is an \<^verbatim>\<open>int\<close>:
  there is a compressed form of \<open>size\<close> bytes that \<^verbatim>\<open>compress\<close> produces in every
  destination of at least \<open>size\<close> bytes, and \<^verbatim>\<open>decompress\<close> of it returns, with the
  input's length and the input itself in the output buffer; and whenever a call of
  \<^verbatim>\<open>compress\<close> returns a length other than 0 (it did not give up for lack of room),
  \<^verbatim>\<open>decompress\<close> of what it wrote returns the input. The result \<open>Some\<close> says that
  both calls return.
\<close>

theorem roundtrip:
  assumes "legal_dictionary dictionaryLength" and "length inp < 2 ^ 31"
    and "int (length inp) \<le> outputBufferLength"
  shows "(\<exists>size m. 8 \<le> size \<and>
            (\<forall>outputLength. int size \<le> outputLength \<longrightarrow>
               compress inp output outputLength dictionaryLength =
                 Some (Inr (sint (word_of_nat size :: 32 word), m))) \<and>
            decompress m outputBufferLength = Some (Inr (int (length inp), inp))) \<and>
         (\<forall>outputLength n m.
            compress inp output outputLength dictionaryLength = Some (Inr (n, m)) \<and> n \<noteq> 0 \<longrightarrow>
            decompress m outputBufferLength = Some (Inr (int (length inp), inp)))"
proof -
  from assms(1) obtain k where k: "dictionaryLength = 2 ^ k" "2 \<le> k" "k \<le> 14"
    by (auto simp: legal_dictionary_def)
  from compress_succeeds [OF k(2,3), of inp "output"] obtain sf where sf:
    "compress_loop inp (8 + 8 * length inp) (2 ^ k + 2) (2 ^ (16 - k) + 2) k
       (compress_init (write_header output (int (length inp)) (2 ^ k))) = Inr sf"
    "8 \<le> c_next sf"
    "\<And>outputLength. int (c_next sf) \<le> outputLength \<Longrightarrow>
       compress inp output outputLength (2 ^ k) =
         Some (Inr (sint (word_of_nat (c_next sf) :: 32 word), flush sf))"
    by blast
  have "decompress (flush sf) outputBufferLength = Some (Inr (int (length inp), inp))"
    by (rule roundtrip_loop [OF k(2,3) assms(2,3) sf(1)])
  with sf(2,3) have first: "\<exists>size m. 8 \<le> size \<and>
            (\<forall>outputLength. int size \<le> outputLength \<longrightarrow>
               compress inp output outputLength dictionaryLength =
                 Some (Inr (sint (word_of_nat size :: 32 word), m))) \<and>
            decompress m outputBufferLength = Some (Inr (int (length inp), inp))"
    unfolding k(1) by blast
  have second: "decompress m outputBufferLength = Some (Inr (int (length inp), inp))"
    if "compress inp output outputLength dictionaryLength = Some (Inr (n, m))" "n \<noteq> 0"
    for outputLength n m
  proof -
    from compress_success_loop [OF k(2,3) that(1) [unfolded k(1)] that(2)] obtain sf' where
      "compress_loop inp (nat outputLength) (2 ^ k + 2) (2 ^ (16 - k) + 2) k
         (compress_init (write_header output (int (length inp)) (2 ^ k))) = Inr sf'"
      "m = flush sf'"
      by blast
    then show ?thesis
      using roundtrip_loop [OF k(2,3) assms(2,3)] by simp
  qed
  from first second show ?thesis by blast
qed

theorem roundtrip_witness:
  "legal_dictionary 4 \<and> length [0x61, 0x62, 0x63, 0x61, 0x62, 0x63, 0x61, 0x62 :: byte] < 2 ^ 31 \<and>
   int (length [0x61, 0x62, 0x63, 0x61, 0x62, 0x63, 0x61, 0x62 :: byte]) \<le> 8 \<and>
   (\<exists>size m. 8 \<le> size \<and>
      compress [0x61, 0x62, 0x63, 0x61, 0x62, 0x63, 0x61, 0x62] (\<lambda>_. 0) (int size) 4 =
        Some (Inr (sint (word_of_nat size :: 32 word), m)) \<and>
      decompress m 8 = Some (Inr (8, [0x61, 0x62, 0x63, 0x61, 0x62, 0x63, 0x61, 0x62])))"
proof -
  let ?X = "[0x61, 0x62, 0x63, 0x61, 0x62, 0x63, 0x61, 0x62 :: byte]"
  have l: "legal_dictionary 4"
    unfolding legal_dictionary_def by (rule bexI [of _ 2]) simp_all
  have h: "length ?X < 2 ^ 31" "int (length ?X) \<le> 8" by simp_all
  from roundtrip [OF l h, of "\<lambda>_. 0"] obtain size m where
    "8 \<le> size" "\<forall>outputLength. int size \<le> outputLength \<longrightarrow>
               compress ?X (\<lambda>_. 0) outputLength 4 =
                 Some (Inr (sint (word_of_nat size :: 32 word), m))"
    "decompress m 8 = Some (Inr (int (length ?X), ?X))"
    by blast
  then have "8 \<le> size \<and> compress ?X (\<lambda>_. 0) (int size) 4 =
        Some (Inr (sint (word_of_nat size :: 32 word), m)) \<and>
      decompress m 8 = Some (Inr (8, ?X))"
    by simp
  with l h show ?thesis by blast
qed

text \<open>
  Claim C2, at the input where the code departs from it. The destination holds 9 bytes:
  the header fits, the first reserved word (bytes 8 to 11) does not. \<^verbatim>\<open>next\<close> is
  8 and \<^verbatim>\<open>outputEnd\<close> is 9, the pointer equality of line 119 is false, and so is the
  one of line 166 (12 against 9): the call returns 16 and has written the flag word at
  offset 8 and the byte word at offset 12, both beyond the capacity.
\<close>

theorem compress_overruns_unaligned_capacity:
  "(case compress [0x41] (\<lambda>_. 0xEEEEEEEE) 9 4 of
      Some (Inr (n, m)) \<Rightarrow> n = 16 \<and> m 8 = 0 \<and> m 12 = 0x41
    | _ \<Rightarrow> False)"
  by code_simp

text \<open>
  Claim C3, as amended. The comparison of the candidate \<open>search\<close> with \<open>current\<close>
  reads its source through \<open>p1\<close>, and the loop stops when \<open>p1\<close> reaches
  \<open>current\<close>: the match length is at most \<open>current - search\<close>, the offset the
  candidate would be emitted with. Only \<open>p2\<close>, which starts at \<open>current\<close>, reads input
  that is not yet emitted.
\<close>

theorem match_stops_at_current:
  "match_loop inp current maxMatch search current 0 \<le> current - search"
  using match_length_le_offset [of inp current maxMatch search] by (simp add: match_length_def)

theorem match_stops_at_current_witness:
  "match_loop [0x41, 0x41, 0x41, 0x41, 0x41, 0x41, 0x41, 0x41] 1 6 0 1 0 \<le> 1 - 0"
  using match_stops_at_current [of "[0x41, 0x41, 0x41, 0x41, 0x41, 0x41, 0x41, 0x41]" 1 6 0]
  by simp

text \<open>
  Claim C3 as stated is false: no input, position and legal dictionary length make the
  search return a length above 2 (a token) that exceeds its offset.
\<close>

theorem no_self_overlapping_match:
  "\<not> (\<exists>inp current dictionaryLength bestLength bestOffset.
        legal_dictionary dictionaryLength \<and>
        find_match inp current (nat (dictionaryLength + 2))
          (nat (65536 div dictionaryLength + 2)) = (bestLength, bestOffset) \<and>
        2 < bestLength \<and> bestOffset < bestLength)"
  using find_match_bounds(1) by fastforce

text \<open>
  Claim C4, as amended. A string token is copied by one \<^verbatim>\<open>memcpy\<close> of \<open>len\<close> bytes
  from \<open>offset\<close> bytes before the write position (lines 245 to 248), where \<open>offset\<close> and
  \<open>len\<close> are the two fields of the low 16 bits of the string accumulator. When the source
  lies in the output buffer, \<open>len \<le> offset\<close> and the destination has room, the call
  appends \<open>len\<close> bytes, each the byte \<open>offset\<close> positions before it in what was already
  written, and \<open>remaining\<close> drops by \<open>len\<close>. When \<open>offset < len\<close> the two ranges
  overlap and the block copy has no defined result.
\<close>

theorem copy_string_block:
  assumes "offset = unat (d_strings s AND offsetMask) + 3"
    and "len = unat (signed_drop_bit lengthShift (d_strings s) AND lengthMask) + 3"
    and "offset \<le> length (d_buffer s)"
  shows "(len \<le> offset \<and> int (length (d_buffer s) + len) \<le> outputBufferLength \<longrightarrow>
           (\<exists>s'. copy_string outputBufferLength offsetMask lengthShift lengthMask s = Inr s' \<and>
              length (d_buffer s') = length (d_buffer s) + len \<and>
              take (length (d_buffer s)) (d_buffer s') = d_buffer s \<and>
              (\<forall>i<len. d_buffer s' ! (length (d_buffer s) + i) =
                          d_buffer s ! (length (d_buffer s) - offset + i)) \<and>
              d_remaining s' = d_remaining s - word_of_nat len)) \<and>
         (offset < len \<longrightarrow>
            copy_string outputBufferLength offsetMask lengthShift lengthMask s
              = Inl MemcpyOverlap)"
proof (rule conjI; rule impI)
  assume a: "len \<le> offset \<and> int (length (d_buffer s) + len) \<le> outputBufferLength"
  let ?buf = "d_buffer s @ take len (drop (length (d_buffer s) - offset) (d_buffer s))"
  have m: "memcpy_back outputBufferLength (d_buffer s) offset len = Inr ?buf"
    using a assms(3) by (simp add: memcpy_back_def)
  have l: "length ?buf = length (d_buffer s) + len"
    using a assms(3) by simp
  have n: "?buf ! (length (d_buffer s) + i) = d_buffer s ! (length (d_buffer s) - offset + i)"
    if "i < len" for i
    using that a assms(3) by (simp add: nth_append)
  show "\<exists>s'. copy_string outputBufferLength offsetMask lengthShift lengthMask s = Inr s' \<and>
              length (d_buffer s') = length (d_buffer s) + len \<and>
              take (length (d_buffer s)) (d_buffer s') = d_buffer s \<and>
              (\<forall>i<len. d_buffer s' ! (length (d_buffer s) + i) =
                          d_buffer s ! (length (d_buffer s) - offset + i)) \<and>
              d_remaining s' = d_remaining s - word_of_nat len"
    unfolding copy_string_def Let_def assms(1,2) [symmetric] m
    using l n by simp
next
  assume "offset < len"
  then have "memcpy_back outputBufferLength (d_buffer s) offset len = Inl MemcpyOverlap"
    using assms(3) by (simp add: memcpy_back_def)
  then show "copy_string outputBufferLength offsetMask lengthShift lengthMask s
              = Inl MemcpyOverlap"
    unfolding copy_string_def Let_def assms(1,2) [symmetric] by simp
qed

theorem copy_string_block_witness:
  "(\<exists>s'. copy_string 6 3 2 0x3fff
       \<lparr>d_current = 20, d_bits = 8, d_bytes = 0, d_strings = 0, d_bitMask = 8,
        d_byteCount = 1, d_stringCount = 2, d_buffer = [0x61, 0x62, 0x63],
        d_remaining = 3\<rparr> = Inr s' \<and> length (d_buffer s') = 3 + 3) \<and>
   copy_string 7 3 2 0x3fff
       \<lparr>d_current = 20, d_bits = 8, d_bytes = 0, d_strings = 4, d_bitMask = 8,
        d_byteCount = 1, d_stringCount = 2, d_buffer = [0x61, 0x62, 0x63],
        d_remaining = 4\<rparr> = Inl MemcpyOverlap"
proof -
  let ?s = "\<lparr>d_current = 20, d_bits = 8, d_bytes = 0, d_strings = 0, d_bitMask = 8,
        d_byteCount = 1, d_stringCount = 2, d_buffer = [0x61, 0x62, 0x63 :: byte],
        d_remaining = 3\<rparr>"
  let ?t = "\<lparr>d_current = 20, d_bits = 8, d_bytes = 0, d_strings = 4, d_bitMask = 8,
        d_byteCount = 1, d_stringCount = 2, d_buffer = [0x61, 0x62, 0x63 :: byte],
        d_remaining = 4\<rparr>"
  have "\<exists>s'. copy_string 6 3 2 0x3fff ?s = Inr s' \<and> length (d_buffer s') = 3 + 3"
    using copy_string_block [of 3 ?s 3 3 2 "0x3fff" 6] by auto
  moreover have "copy_string 7 3 2 0x3fff ?t = Inl MemcpyOverlap"
    using copy_string_block [of 3 ?t 3 4 2 "0x3fff" 7] by simp
  ultimately show ?thesis by blast
qed

text \<open>
  Claim C4 as stated fails on the stream made of the literals \<open>a b c\<close> and a token with
  offset 3 and length 4 (dictionary length 4, 7 bytes to decode): a copy byte by byte would
  give \<open>a b c a b c a\<close>; the block copy of line 247 is called on overlapping ranges.
\<close>

theorem overlapping_token_undefined:
  "decompress ((\<lambda>_. 0)(0 := 7, 4 := 4, 8 := 8, 12 := 0x00636261, 16 := 4)) 7
     = Some (Inl MemcpyOverlap) \<and>
   decompress ((\<lambda>_. 0)(0 := 7, 4 := 4, 8 := 8, 12 := 0x00636261, 16 := 4)) 7
     \<noteq> Some (Inr (7, [0x61, 0x62, 0x63, 0x61, 0x62, 0x63, 0x61]))"
proof -
  have "decompress ((\<lambda>_. 0)(0 := 7, 4 := 4, 8 := 8, 12 := 0x00636261, 16 := 4)) 7
     = Some (Inl MemcpyOverlap)"
    by code_simp
  then show ?thesis by simp
qed

text \<open>
  Claim C5. With a legal dictionary length, at every position the search returns a length
  that is at most the offset, so every token has \<open>length \<le> offset\<close>; and
  \<^verbatim>\<open>decompress\<close>, run on what a successful \<^verbatim>\<open>compress\<close> wrote, returns and never
  calls \<^verbatim>\<open>memcpy\<close> on overlapping ranges (in the model such a call ends the run with
  \<open>MemcpyOverlap\<close>).
\<close>

theorem memcpy_ranges_disjoint:
  assumes "legal_dictionary dictionaryLength" and "length inp < 2 ^ 31"
    and "int (length inp) \<le> outputBufferLength"
  shows "(\<forall>current bestLength bestOffset.
            find_match inp current (nat (dictionaryLength + 2))
              (nat (65536 div dictionaryLength + 2)) = (bestLength, bestOffset) \<longrightarrow>
            bestLength \<le> bestOffset) \<and>
         (\<forall>outputLength n m.
            compress inp output outputLength dictionaryLength = Some (Inr (n, m)) \<and> n \<noteq> 0 \<longrightarrow>
            decompress m outputBufferLength \<noteq> None \<and>
            decompress m outputBufferLength \<noteq> Some (Inl MemcpyOverlap))"
proof -
  from assms(1) obtain k where k: "dictionaryLength = 2 ^ k" "2 \<le> k" "k \<le> 14"
    by (auto simp: legal_dictionary_def)
  have "decompress m outputBufferLength \<noteq> None \<and>
        decompress m outputBufferLength \<noteq> Some (Inl MemcpyOverlap)"
    if "compress inp output outputLength dictionaryLength = Some (Inr (n, m))" "n \<noteq> 0"
    for outputLength n m
  proof -
    from compress_success_loop [OF k(2,3) that(1) [unfolded k(1)] that(2)] obtain sf where
      "compress_loop inp (nat outputLength) (2 ^ k + 2) (2 ^ (16 - k) + 2) k
         (compress_init (write_header output (int (length inp)) (2 ^ k))) = Inr sf"
      "m = flush sf"
      by blast
    then show ?thesis
      using roundtrip_loop [OF k(2,3) assms(2,3)] by simp
  qed
  then show ?thesis using find_match_bounds(1) by blast
qed

theorem memcpy_ranges_disjoint_witness:
  "legal_dictionary 4 \<and> length [0x61, 0x61, 0x61, 0x61, 0x61, 0x61, 0x61, 0x61 :: byte] < 2 ^ 31 \<and>
   int (length [0x61, 0x61, 0x61, 0x61, 0x61, 0x61, 0x61, 0x61 :: byte]) \<le> 8 \<and>
   find_match [0x61, 0x61, 0x61, 0x61, 0x61, 0x61, 0x61, 0x61] 3 (nat (4 + 2)) (nat (65536 div 4 + 2))
     = (3, 3) \<and> (3::nat) \<le> 3"
proof -
  let ?X = "[0x61, 0x61, 0x61, 0x61, 0x61, 0x61, 0x61, 0x61 :: byte]"
  have l: "legal_dictionary 4"
    unfolding legal_dictionary_def by (rule bexI [of _ 2]) simp_all
  have h: "length ?X < 2 ^ 31" "int (length ?X) \<le> 8" by simp_all
  have fm: "find_match ?X 3 (nat (4 + 2)) (nat (65536 div 4 + 2)) = (3, 3)"
    by code_simp
  from memcpy_ranges_disjoint [OF l h, of "\<lambda>_. 0"] fm have "(3::nat) \<le> 3" by blast
  with l h fm show ?thesis by blast
qed

text \<open>
  Claim C6, as amended. With a legal dictionary length, whenever the search returns a length
  above 2, so that a token is emitted: \<open>3 \<le> bestOffset \<le> dictionaryLength + 2\<close> and
  \<open>bestLength \<le> maxMatch\<close>, hence \<open>bestOffset - 3\<close> fits in \<open>lengthShift\<close> bits and
  \<open>bestLength - 3\<close> in \<open>16 - lengthShift\<close> bits; the packed token fits in 16 bits, and
  the decoder's two masks give back each field, so the fields do not collide.
\<close>

theorem token_fields_fit:
  assumes "legal_dictionary dictionaryLength"
    and "find_match inp current (nat (dictionaryLength + 2))
           (nat (65536 div dictionaryLength + 2)) = (bestLength, bestOffset)"
    and "2 < bestLength"
  shows "\<exists>lengthShift. shift_loop (- 1) dictionaryLength = Some (int lengthShift) \<and>
           dictionaryLength = 2 ^ lengthShift \<and>
           3 \<le> bestOffset \<and> int bestOffset \<le> dictionaryLength + 2 \<and>
           int bestLength \<le> 65536 div dictionaryLength + 2 \<and>
           bestOffset - 3 < 2 ^ lengthShift \<and> bestLength - 3 < 2 ^ (16 - lengthShift) \<and>
           take_bit 16 (token lengthShift bestLength bestOffset) =
             token lengthShift bestLength bestOffset \<and>
           unat (token lengthShift bestLength bestOffset AND word_of_int (dictionaryLength - 1))
             = bestOffset - 3 \<and>
           unat (signed_drop_bit lengthShift (token lengthShift bestLength bestOffset) AND
                 signed_drop_bit lengthShift
                   ((NOT (word_of_int (dictionaryLength - 1))) AND 0xffff))
             = bestLength - 3"
proof -
  from assms(1) obtain k where k: "dictionaryLength = 2 ^ k" "2 \<le> k" "k \<le> 14"
    by (auto simp: legal_dictionary_def)
  note lp = legal_parameters [OF k(2,3)]
  have k16: "k \<le> 16" using k by simp
  from assms(2) have fm: "find_match inp current (2 ^ k + 2) (2 ^ (16 - k) + 2)
      = (bestLength, bestOffset)"
    by (simp only: k(1) lp)
  note tf = token_fields [OF fm assms(3)]
  note fits = token_fits [OF fm assms(3) k16]
  note fmb = find_match_bounds [OF fm]
  have tok: "take_bit 16 (token k bestLength bestOffset) =
      push_bit k (word_of_nat (bestLength - 3)) + word_of_nat (bestOffset - 3)"
    using fits tf(4) by simp
  have "int bestOffset \<le> int (nat (2 ^ k + 2))" "int bestLength \<le> int (nat (65536 div 2 ^ k + 2))"
    using fmb(3,4) by (simp_all only: lp int_ops)
  moreover have "(0::int) \<le> 65536 div 2 ^ k" by (simp add: pos_imp_zdiv_nonneg_iff)
  ultimately have b: "int bestOffset \<le> dictionaryLength + 2"
    "int bestLength \<le> 65536 div dictionaryLength + 2"
    by (simp_all add: k(1))
  show ?thesis
    apply (rule exI [of _ k])
    unfolding k(1)
    using lp(6) tf(1,2,3) b [unfolded k(1)] fits token_offset [OF k16 tf(1,2) tok]
      token_length [OF k16 tf(1,2) tok]
    by (intro conjI) simp_all
qed

theorem token_fields_fit_witness:
  "legal_dictionary 16384 \<and>
   find_match [1, 2, 3, 4, 5, 6, 1, 2, 3, 4, 5, 6] 6 (nat (16384 + 2)) (nat (65536 div 16384 + 2))
     = (6, 6) \<and> (2::nat) < 6 \<and> (6::nat) - 3 < 2 ^ (16 - 14) \<and>
   take_bit 16 (token 14 6 6) = token 14 6 6"
proof -
  let ?X = "[1, 2, 3, 4, 5, 6, 1, 2, 3, 4, 5, 6 :: byte]"
  have l: "legal_dictionary 16384"
    unfolding legal_dictionary_def by (rule bexI [of _ 14]) simp_all
  have fm: "find_match ?X 6 (nat (16384 + 2)) (nat (65536 div 16384 + 2)) = (6, 6)"
    by code_simp
  from token_fields_fit [OF l fm] obtain ls where
    ls: "(16384::int) = 2 ^ ls" "take_bit 16 (token ls 6 6) = token ls 6 6"
    by auto
  have "(2::int) ^ ls = 2 ^ 14" using ls(1) by simp
  then have "ls = 14" by (simp only: power_inject_exp one_less_numeral_iff semiring_norm)
  with ls l fm show ?thesis by simp
qed

text \<open>
  Claim C6 as stated fails where it says \<open>bestLength < maxMatch\<close>: with the dictionary
  length 16384, \<open>maxMatch\<close> is 6, and at position 6 of \<open>1 2 3 4 5 6 1 2 3 4 5 6\<close> the
  search returns the length 6.
\<close>

theorem best_length_reaches_maxMatch:
  "legal_dictionary 16384 \<and>
   find_match [1, 2, 3, 4, 5, 6, 1, 2, 3, 4, 5, 6] 6 (nat (16384 + 2)) (nat (65536 div 16384 + 2))
     = (6, 6) \<and>
   \<not> ((6::nat) < nat (65536 div 16384 + 2))"
proof -
  have "legal_dictionary 16384"
    unfolding legal_dictionary_def by (rule bexI [of _ 14]) simp_all
  moreover have "find_match [1, 2, 3, 4, 5, 6, 1, 2, 3, 4, 5, 6] 6 (nat (16384 + 2))
      (nat (65536 div 16384 + 2)) = (6, 6)"
    by code_simp
  ultimately show ?thesis by simp
qed

text \<open>
  Claim C7. One iteration of the main loop of \<^verbatim>\<open>compress\<close>, run with the parameters of
  a legal dictionary length from a state \<open>s\<close> at whose position the search returns a length
  above 2. The iteration emits a string token: it sets the flag bit; it adds the 16-bit
  field \<open>token lengthShift bestLength bestOffset\<close> of line 143 to the string accumulator, in
  the half that \<open>stringCount\<close> selects, and writes the accumulator to the reserved cell when
  this is its second field; and it moves \<open>current\<close> on by \<open>bestLength\<close>. When the loop,
  continued from there, comes to its end, this field of the string word in the buffer that
  \<^verbatim>\<open>compress\<close> leaves is that token (\<open>packer_ok\<close> holds of every state the loop reaches).
  The offset field of the token, read with the decoder's mask, is \<open>bestOffset - 3\<close>. And
  \<open>bestOffset\<close> is the offset of the closest candidate of maximal length: the candidate
  \<open>current - bestOffset\<close> lies in the window and has match length \<open>bestLength\<close>; no
  candidate of the window has a longer match; and every candidate of the window whose match
  length is \<open>bestLength\<close> is at least as far back.
\<close>

theorem closest_longest_match:
  assumes "legal_dictionary dictionaryLength"
    and "shift_loop (- 1) dictionaryLength = Some (int lengthShift)"
    and "maxOffset = nat (dictionaryLength + 2)"
    and "maxMatch = nat (65536 div dictionaryLength + 2)"
    and "find_match inp (c_current s) maxOffset maxMatch = (bestLength, bestOffset)"
    and "2 < bestLength"
    and "compress_step inp outputEnd maxOffset maxMatch lengthShift s = Inr s'"
  shows "c_bits s' = (if c_bitMask s = 0 then 0 else c_bits s) OR
                     (if c_bitMask s = 0 then 1 else c_bitMask s) \<and>
     c_strings s' = (if c_stringCount s = 0 then 0 else c_strings s) +
        push_bit (c_stringCount s * 16) (token lengthShift bestLength bestOffset) \<and>
     (c_stringCount s = 0 \<longrightarrow> c_stringCount s' = 1 \<and>
        c_nextStrings s' = (if c_bitMask s = 0 then c_next s + 4 else c_next s)) \<and>
     (c_stringCount s = 1 \<longrightarrow> c_stringCount s' = 0 \<and>
        c_mem s' (c_nextStrings s) = c_strings s') \<and>
     c_current s' = c_current s + bestLength \<and>
     (\<forall>sf. packer_ok s \<and>
           compress_loop inp outputEnd maxOffset maxMatch lengthShift s' = Inr sf \<longrightarrow>
           take_bit 16 (signed_drop_bit (16 * c_stringCount s)
             (flush sf (if c_stringCount s = 0
                        then (if c_bitMask s = 0 then c_next s + 4 else c_next s)
                        else c_nextStrings s)))
           = token lengthShift bestLength bestOffset) \<and>
     unat (token lengthShift bestLength bestOffset AND word_of_int (dictionaryLength - 1)) + 3
       = bestOffset \<and>
     bestOffset \<le> c_current s \<and>
     window_start (c_current s) maxOffset \<le> c_current s - bestOffset \<and>
     match_length inp (c_current s) maxMatch (c_current s - bestOffset) = bestLength \<and>
     (\<forall>c. window_start (c_current s) maxOffset \<le> c \<and> c \<le> c_current s \<longrightarrow>
          match_length inp (c_current s) maxMatch c \<le> bestLength) \<and>
     (\<forall>c. window_start (c_current s) maxOffset \<le> c \<and> c \<le> c_current s \<and>
          match_length inp (c_current s) maxMatch c = bestLength \<longrightarrow>
          bestOffset \<le> c_current s - c)"
proof -
  let ?cur = "c_current s"
  from assms(1) obtain k where k: "dictionaryLength = 2 ^ k" "2 \<le> k" "k \<le> 14"
    by (auto simp: legal_dictionary_def)
  note lp = legal_parameters [OF k(2,3)]
  have k16: "k \<le> 16" using k by simp
  have ls: "lengthShift = k" using assms(2) by (simp add: k(1) lp(6))
  have mo: "maxOffset = 2 ^ k + 2" and mm: "maxMatch = 2 ^ (16 - k) + 2"
    using assms(3,4) by (simp_all only: k(1) lp)
  note fm = assms(5) [unfolded mo mm]
  note tf = token_fields [OF fm assms(6)]
  note fits = token_fits [OF fm assms(6) k16]
  have tok: "take_bit 16 (token k bestLength bestOffset) =
      push_bit k (word_of_nat (bestLength - 3)) + word_of_nat (bestOffset - 3)"
    using fits tf(4) by simp
  have off: "unat (token lengthShift bestLength bestOffset AND word_of_int (dictionaryLength - 1))
      + 3 = bestOffset"
    unfolding ls k(1) using token_offset [OF k16 tf(1,2) tok] tf(3) by simp
  from compress_step_string [OF assms(7,5,6)] obtain s1 s2
    where st: "reserve_bits outputEnd s = Inr s1"
      "reserve_strings outputEnd (emit_flag True s1) = Inr s2"
      "s' = pack_string lengthShift bestLength bestOffset s2"
    by blast
  note ff = flag_step_frame [OF st(1), of True]
  note sf = string_step_frame [OF st(2), of lengthShift bestLength bestOffset, folded st(3)]
  have sv: "c_strings s' =
           (if c_stringCount (emit_flag True s1) = 0 then 0 else c_strings (emit_flag True s1)) +
           push_bit (c_stringCount (emit_flag True s1) * 16)
             (token lengthShift bestLength bestOffset)"
    "c_stringCount (emit_flag True s1) = 1 \<Longrightarrow>
       c_mem s' (c_nextStrings (emit_flag True s1)) = c_strings s'"
    using st(2) unfolding st(3)
    by (auto simp: reserve_strings_def pack_string_def token_def Let_def split: if_splits)
  have 1: "c_bits s' = (if c_bitMask s = 0 then 0 else c_bits s) OR
                     (if c_bitMask s = 0 then 1 else c_bitMask s)"
    using flag_step_value [OF st(1), of True] by (simp add: sf(3))
  have 2: "c_strings s' = (if c_stringCount s = 0 then 0 else c_strings s) +
        push_bit (c_stringCount s * 16) (token lengthShift bestLength bestOffset)"
    using sv(1) by (simp add: ff)
  have 3: "c_stringCount s' = 1 \<and>
        c_nextStrings s' = (if c_bitMask s = 0 then c_next s + 4 else c_next s)"
    if "c_stringCount s = 0"
    using that by (simp add: sf ff)
  have 4: "c_stringCount s' = 0 \<and> c_mem s' (c_nextStrings s) = c_strings s'"
    if "c_stringCount s = 1"
    using that sv(2) by (simp add: sf ff)
  have 5: "c_current s' = c_current s + bestLength"
    by (simp add: sf ff)
  have cur: "?cur < length inp"
    using find_match_bounds(5) [OF assms(5)] assms(6) by linarith
  have 11: "take_bit 16 (signed_drop_bit (16 * c_stringCount s)
             (flush sf (if c_stringCount s = 0
                        then (if c_bitMask s = 0 then c_next s + 4 else c_next s)
                        else c_nextStrings s)))
           = token lengthShift bestLength bestOffset"
    if ok: "packer_ok s"
      and loop: "compress_loop inp outputEnd maxOffset maxMatch lengthShift s' = Inr sf" for sf
  proof -
    note step = assms(7) [unfolded mo mm ls]
    note ok' = compress_step_ok [OF ok cur k16 step]
    from compress_loop_agrees [OF ok' k16 loop [unfolded mo mm ls]]
    have ag: "agrees s' (flush sf)" by simp
    note okf = flag_step_ok [OF ok st(1), of True]
    from string_step_agrees(2) [OF okf st(2) ag [unfolded st(3)] fits [folded ls]]
    show ?thesis by (simp only: ff)
  qed
  from find_match_result [OF assms(5)] obtain c
    where c: "window_start ?cur maxOffset \<le> c" "c \<le> ?cur"
      "bestLength = match_length inp ?cur maxMatch c" "bestOffset = ?cur - c"
      "\<forall>c'. c < c' \<and> c' \<le> ?cur \<longrightarrow> match_length inp ?cur maxMatch c' < bestLength"
      "\<forall>c'. window_start ?cur maxOffset \<le> c' \<and> c' \<le> ?cur \<longrightarrow>
                   match_length inp ?cur maxMatch c' \<le> bestLength"
    by blast
  have 6: "bestOffset \<le> ?cur - c'"
    if "c' \<le> ?cur" "match_length inp ?cur maxMatch c' = bestLength" for c'
  proof -
    have "\<not> c < c'" using c(5) that by auto
    then show ?thesis using c(4) by simp
  qed
  have 7: "?cur - bestOffset = c" "bestOffset \<le> ?cur" using c by simp_all
  have 8: "window_start ?cur maxOffset \<le> ?cur - bestOffset"
    "match_length inp ?cur maxMatch (?cur - bestOffset) = bestLength"
    using c(1,3) by (simp_all only: 7)
  have 9: "\<forall>c. window_start ?cur maxOffset \<le> c \<and> c \<le> ?cur \<and>
          match_length inp ?cur maxMatch c = bestLength \<longrightarrow> bestOffset \<le> ?cur - c"
    using 6 by blast
  have 10: "c_stringCount s = 0 \<longrightarrow> c_stringCount s' = 1 \<and>
        c_nextStrings s' = (if c_bitMask s = 0 then c_next s + 4 else c_next s)"
    "c_stringCount s = 1 \<longrightarrow> c_stringCount s' = 0 \<and> c_mem s' (c_nextStrings s) = c_strings s'"
    using 3 4 by blast+
  have 12: "\<forall>sf. packer_ok s \<and>
           compress_loop inp outputEnd maxOffset maxMatch lengthShift s' = Inr sf \<longrightarrow>
           take_bit 16 (signed_drop_bit (16 * c_stringCount s)
             (flush sf (if c_stringCount s = 0
                        then (if c_bitMask s = 0 then c_next s + 4 else c_next s)
                        else c_nextStrings s)))
           = token lengthShift bestLength bestOffset"
    using 11 by blast
  show ?thesis
    using 1 2 10 5 12 off 7(2) 8 c(6) 9 by (intro conjI) assumption+
qed

text \<open>
  The input \<open>1 2 3 4 1 2 3 4 1 2 3 4\<close> with the dictionary length 8, in the state that
  \<^verbatim>\<open>compress\<close> has reached at position 8 (four literals and the token of position 4, which
  is the first field of the string word at offset 16). The candidates 0 and 4 both match 4
  bytes; the token has the offset 4 of the closer one, its value is 9 (length field 1, offset
  field 1), and the string word is written with this token in its second field. The
  iteration ends the loop, and the upper half of the word at offset 16 of the final buffer
  is the token.
\<close>

theorem closest_longest_match_witness:
  "legal_dictionary 8 \<and> shift_loop (- 1) 8 = Some (int 3) \<and>
   find_match [1, 2, 3, 4, 1, 2, 3, 4, 1, 2, 3, 4] 8 (nat (8 + 2)) (nat (65536 div 8 + 2))
     = (4, 4) \<and>
   match_length [1, 2, 3, 4, 1, 2, 3, 4, 1, 2, 3, 4] 8 (nat (65536 div 8 + 2)) 0 = 4 \<and>
   match_length [1, 2, 3, 4, 1, 2, 3, 4, 1, 2, 3, 4] 8 (nat (65536 div 8 + 2)) (8 - 4) = 4 \<and>
   (4::nat) \<le> 8 - 0 \<and>
   (\<exists>s'. compress_step [1, 2, 3, 4, 1, 2, 3, 4, 1, 2, 3, 4] 64 (nat (8 + 2))
            (nat (65536 div 8 + 2)) 3
            \<lparr>c_next = 20, c_nextBits = 8, c_nextBytes = 12, c_nextStrings = 16,
             c_bits = 16, c_bitMask = 32, c_bytes = 0x04030201, c_byteCount = 0,
             c_strings = 9, c_stringCount = 1, c_current = 8,
             c_mem = (\<lambda>_. 0)(0 := 12, 4 := 8, 12 := 0x04030201)\<rparr> = Inr s' \<and>
          c_strings s' = 9 + push_bit 16 (token 3 4 4) \<and> c_mem s' 16 = 0x00090009 \<and>
          c_current s' = 12 \<and>
          compress_loop [1, 2, 3, 4, 1, 2, 3, 4, 1, 2, 3, 4] 64 (nat (8 + 2))
            (nat (65536 div 8 + 2)) 3 s' = Inr s' \<and>
          take_bit 16 (signed_drop_bit (16 * 1) (flush s' 16)) = token 3 4 4)"
proof -
  let ?X = "[1, 2, 3, 4, 1, 2, 3, 4, 1, 2, 3, 4 :: byte]"
  let ?s = "\<lparr>c_next = 20, c_nextBits = 8, c_nextBytes = 12, c_nextStrings = 16,
             c_bits = 16, c_bitMask = 32, c_bytes = 0x04030201, c_byteCount = 0,
             c_strings = 9, c_stringCount = 1, c_current = 8,
             c_mem = (\<lambda>_. 0)(0 := 12, 4 := 8, 12 := 0x04030201)\<rparr>"
  have l: "legal_dictionary 8"
    unfolding legal_dictionary_def by (rule bexI [of _ 3]) simp_all
  have sl: "shift_loop (- 1) 8 = Some (int 3)" by code_simp
  have fm: "find_match ?X (c_current ?s) (nat (8 + 2)) (nat (65536 div 8 + 2)) = (4, 4)"
    by code_simp
  have m0: "match_length ?X 8 (nat (65536 div 8 + 2)) 0 = 4" by code_simp
  have "case compress_step ?X 64 (nat (8 + 2)) (nat (65536 div 8 + 2)) 3 ?s of
          Inr s' \<Rightarrow> c_mem s' 16 = 0x00090009 \<and> flush s' 16 = 0x00090009
        | Inl _ \<Rightarrow> False"
    by code_simp
  then obtain s' where
    st: "compress_step ?X 64 (nat (8 + 2)) (nat (65536 div 8 + 2)) 3 ?s = Inr s'"
    and direct: "c_mem s' 16 = 0x00090009" "flush s' 16 = 0x00090009"
    by (auto split: sum.splits)
  have "flag_ok ?s"
    unfolding flag_ok_def by (rule disjI2, rule exI [of _ 5]) simp
  then have ok: "packer_ok ?s"
    by (simp add: packer_ok_def byte_ok_def string_ok_def distinct_ok_def)
  note r = closest_longest_match [OF l sl refl refl fm _ st]
  have tk: "token 3 4 4 = 9" by code_simp
  from r have w: "c_strings s' = 9 + push_bit 16 (token 3 4 4)" "c_mem s' 16 = c_strings s'"
    "c_current s' = 12" "match_length ?X 8 (nat (65536 div 8 + 2)) (8 - 4) = 4"
    by simp_all
  have loop: "compress_loop ?X 64 (nat (8 + 2)) (nat (65536 div 8 + 2)) 3 s' = Inr s'"
    by (subst compress_loop.simps) (simp add: w(3))
  from r ok loop have fin: "take_bit 16 (signed_drop_bit (16 * 1) (flush s' 16)) = token 3 4 4"
    by simp
  have m: "c_mem s' 16 = 0x00090009" using w(1,2) direct(1) by (simp add: tk)
  have fm': "find_match ?X 8 (nat (8 + 2)) (nat (65536 div 8 + 2)) = (4, 4)"
    using fm by simp
  have "\<exists>s'. compress_step ?X 64 (nat (8 + 2)) (nat (65536 div 8 + 2)) 3 ?s = Inr s' \<and>
          c_strings s' = 9 + push_bit 16 (token 3 4 4) \<and> c_mem s' 16 = 0x00090009 \<and>
          c_current s' = 12 \<and>
          compress_loop ?X 64 (nat (8 + 2)) (nat (65536 div 8 + 2)) 3 s' = Inr s' \<and>
          take_bit 16 (signed_drop_bit (16 * 1) (flush s' 16)) = token 3 4 4"
    using st w(1) m w(3) loop fin by (intro exI [of _ s'] conjI) assumption+
  with l sl fm' m0 w(4) show ?thesis by (intro conjI) simp_all
qed

text \<open>
  Claim C8, as amended. \<open>dictionaryLength\<close> is any \<^verbatim>\<open>int\<close>. The three checks are made in
  the order of lines 30 to 41, so a dictionary length meets the first check that it fails. A
  length that is not a power of two is refused as not a power of two, whatever its size,
  unless it is 0 or the least \<^verbatim>\<open>int\<close>: these two pass the test of line 30 (for the
  least \<^verbatim>\<open>int\<close>, \<open>dictionaryLength - 1\<close> wraps to the greatest) and are refused, like 1
  and 2, as too small. A power of two above 16384 is refused as too large. In each case the
  call ends in \<^verbatim>\<open>error\<close> before the first write to the destination: the result carries
  no buffer.
\<close>

theorem compress_dictionary_checks:
  assumes "- (2 ^ 31) \<le> dictionaryLength" and "dictionaryLength < 2 ^ 31"
  shows
  "(dictionaryLength \<noteq> 0 \<and> dictionaryLength \<noteq> - (2 ^ 31) \<and>
    (\<forall>k::nat. dictionaryLength \<noteq> 2 ^ k) \<longrightarrow>
      compress inp output outputLength dictionaryLength = Some (Inl DictionaryNotPowerOf2)) \<and>
   ((dictionaryLength = 0 \<or> dictionaryLength = - (2 ^ 31) \<or>
     (\<exists>k::nat. dictionaryLength = 2 ^ k)) \<and> dictionaryLength < 4 \<longrightarrow>
      compress inp output outputLength dictionaryLength = Some (Inl DictionaryTooSmall)) \<and>
   ((\<exists>k::nat. dictionaryLength = 2 ^ k) \<and> dictionaryLength > 16384 \<longrightarrow>
      compress inp output outputLength dictionaryLength = Some (Inl DictionaryTooLarge))"
proof (intro conjI impI)
  assume a: "dictionaryLength \<noteq> 0 \<and> dictionaryLength \<noteq> - (2 ^ 31) \<and>
    (\<forall>k::nat. dictionaryLength \<noteq> 2 ^ k)"
  with assms have "to_int32 (dictionaryLength - 1) = dictionaryLength - 1"
    by (intro to_int32_id) simp_all
  moreover have "dictionaryLength AND (dictionaryLength - 1) \<noteq> 0"
  proof (cases "dictionaryLength < 0")
    case True
    then show ?thesis by (rule and_pred_negative)
  next
    case False
    with a have "0 < dictionaryLength" by simp
    with a and_pred_power [of dictionaryLength] show ?thesis by blast
  qed
  ultimately show "compress inp output outputLength dictionaryLength
      = Some (Inl DictionaryNotPowerOf2)"
    by (simp add: compress_def)
next
  assume a: "(dictionaryLength = 0 \<or> dictionaryLength = - (2 ^ 31) \<or>
     (\<exists>k::nat. dictionaryLength = 2 ^ k)) \<and> dictionaryLength < 4"
  have "dictionaryLength AND to_int32 (dictionaryLength - 1) = 0"
  proof (cases "dictionaryLength = - (2 ^ 31)")
    case True
    then show ?thesis by (simp add: to_int32_def)
  next
    case False
    with assms have "to_int32 (dictionaryLength - 1) = dictionaryLength - 1"
      by (intro to_int32_id) simp_all
    with a False show ?thesis using power_and_pred by auto
  qed
  with a show "compress inp output outputLength dictionaryLength = Some (Inl DictionaryTooSmall)"
    by (simp add: compress_def)
next
  assume a: "(\<exists>k::nat. dictionaryLength = 2 ^ k) \<and> dictionaryLength > 16384"
  with assms have "to_int32 (dictionaryLength - 1) = dictionaryLength - 1"
    by (intro to_int32_id) simp_all
  with a have "dictionaryLength AND to_int32 (dictionaryLength - 1) = 0"
    using power_and_pred by auto
  with a show "compress inp output outputLength dictionaryLength = Some (Inl DictionaryTooLarge)"
    by (simp add: compress_def)
qed

lemma six_not_power: "(6::int) \<noteq> 2 ^ k"
proof
  assume "(6::int) = 2 ^ k"
  then have "(6::int) AND (6 - 1) = 0" using power_and_pred [of k] by simp
  then show False by simp
qed

theorem compress_dictionary_checks_witness:
  "compress [0x41] (\<lambda>_. 0) 64 6 = Some (Inl DictionaryNotPowerOf2) \<and>
   compress [0x41] (\<lambda>_. 0) 64 2 = Some (Inl DictionaryTooSmall) \<and>
   compress [0x41] (\<lambda>_. 0) 64 0 = Some (Inl DictionaryTooSmall) \<and>
   compress [0x41] (\<lambda>_. 0) 64 (- 2147483648) = Some (Inl DictionaryTooSmall) \<and>
   compress [0x41] (\<lambda>_. 0) 64 32768 = Some (Inl DictionaryTooLarge)"
proof -
  have p1: "\<exists>k::nat. (2::int) = 2 ^ k" by (rule exI [of _ 1]) simp
  have p15: "\<exists>k::nat. (32768::int) = 2 ^ k" by (rule exI [of _ 15]) simp
  have a: "(6::int) \<noteq> 0 \<and> (6::int) \<noteq> - (2 ^ 31) \<and> (\<forall>k::nat. (6::int) \<noteq> 2 ^ k)"
    using six_not_power by simp
  have b: "((2::int) = 0 \<or> (2::int) = - (2 ^ 31) \<or> (\<exists>k::nat. (2::int) = 2 ^ k)) \<and> (2::int) < 4"
    using p1 by simp
  have c: "((0::int) = 0 \<or> (0::int) = - (2 ^ 31) \<or> (\<exists>k::nat. (0::int) = 2 ^ k)) \<and> (0::int) < 4"
    by simp
  have d: "(\<exists>k::nat. (32768::int) = 2 ^ k) \<and> (32768::int) > 16384" using p15 by simp
  have e: "((- 2147483648::int) = 0 \<or> (- 2147483648::int) = - (2 ^ 31) \<or>
      (\<exists>k::nat. (- 2147483648::int) = 2 ^ k)) \<and> (- 2147483648::int) < 4"
    by simp
  have r: "- (2 ^ 31) \<le> (6::int)" "(6::int) < 2 ^ 31" "- (2 ^ 31) \<le> (2::int)" "(2::int) < 2 ^ 31"
    "- (2 ^ 31) \<le> (0::int)" "(0::int) < 2 ^ 31" "- (2 ^ 31) \<le> (32768::int)" "(32768::int) < 2 ^ 31"
    "- (2 ^ 31) \<le> (- 2147483648::int)" "(- 2147483648::int) < 2 ^ 31"
    by simp_all
  have 1: "compress [0x41] (\<lambda>_. 0) 64 6 = Some (Inl DictionaryNotPowerOf2)"
    using compress_dictionary_checks [OF r(1,2), of "[0x41]" "\<lambda>_. 0" 64] a by blast
  have 2: "compress [0x41] (\<lambda>_. 0) 64 2 = Some (Inl DictionaryTooSmall)"
    using compress_dictionary_checks [OF r(3,4), of "[0x41]" "\<lambda>_. 0" 64] b by blast
  have 3: "compress [0x41] (\<lambda>_. 0) 64 0 = Some (Inl DictionaryTooSmall)"
    using compress_dictionary_checks [OF r(5,6), of "[0x41]" "\<lambda>_. 0" 64] c by blast
  have 4: "compress [0x41] (\<lambda>_. 0) 64 32768 = Some (Inl DictionaryTooLarge)"
    using compress_dictionary_checks [OF r(7,8), of "[0x41]" "\<lambda>_. 0" 64] d by blast
  have 5: "compress [0x41] (\<lambda>_. 0) 64 (- 2147483648) = Some (Inl DictionaryTooSmall)"
    using compress_dictionary_checks [OF r(9,10), of "[0x41]" "\<lambda>_. 0" 64] e by blast
  from 1 2 3 4 5 show ?thesis by (intro conjI)
qed

text \<open>
  Claim C8 as stated fails at the dictionary length 3: it is below 4, and the call ends
  with the message of line 32, not the one of line 36.
\<close>

theorem dictionary_three_counterexample:
  "(3::int) < 4 \<and> compress [0x41] (\<lambda>_. 0) 64 3 = Some (Inl DictionaryNotPowerOf2) \<and>
   compress [0x41] (\<lambda>_. 0) 64 3 \<noteq> Some (Inl DictionaryTooSmall)"
  by (simp add: compress_def to_int32_def)

text \<open>
  Claim C9. With a legal dictionary length, an input of \<open>N\<close> bytes in which no three
  bytes repeat within the window, and a destination that holds the result (whose size is an
  \<^verbatim>\<open>int\<close>), \<^verbatim>\<open>compress\<close> returns \<open>8 + 4 * ceil (N / 32) + 4 * ceil (N / 4)\<close> and
  leaves in the destination the buffer \<open>literal_output\<close>: the header with \<open>N\<close> and the
  dictionary length, \<open>ceil (N / 32)\<close> flag words that are 0, \<open>ceil (N / 4)\<close> byte words
  that hold the input, four bytes to a word, and every other cell as it was. There is no
  string word: each word between the header and the returned length is one of these flag
  words or byte words, which lie in distinct cells.
\<close>

theorem all_literal_size:
  assumes "legal_dictionary dictionaryLength"
    and "no_repeat inp (nat (dictionaryLength + 2))"
    and "int (literal_size (length inp)) \<le> outputLength"
    and "literal_size (length inp) < 2 ^ 31"
  shows "compress inp output outputLength dictionaryLength =
           Some (Inr (8 + 4 * int ((length inp + 31) div 32) + 4 * int ((length inp + 3) div 4),
                      literal_output output inp dictionaryLength)) \<and>
         (\<forall>p. 8 \<le> p \<and> p < 8 + 4 * ((length inp + 31) div 32) + 4 * ((length inp + 3) div 4) \<and>
              4 dvd p \<longrightarrow>
              (\<exists>g<(length inp + 31) div 32. p = flag_word_cell g) \<or>
              (\<exists>j<(length inp + 3) div 4. p = byte_word_cell j)) \<and>
         inj flag_word_cell \<and> inj byte_word_cell \<and>
         (\<forall>g j. flag_word_cell g \<noteq> byte_word_cell j)"
proof -
  let ?n = "length inp"
  from assms(1) obtain k where k: "dictionaryLength = 2 ^ k" "2 \<le> k" "k \<le> 14"
    by (auto simp: legal_dictionary_def)
  note lp = legal_parameters [OF k(2,3)]
  have nr: "no_repeat inp (2 ^ k + 2)" using assms(2) by (simp only: k(1) lp)
  let ?mem = "write_header output (int ?n) (2 ^ k)"
  have ol: "8 \<le> outputLength" "literal_size ?n \<le> nat outputLength"
    using assms(3) by (simp_all add: literal_size_def)
  from literal_loop [OF _ literal_init ol(2) nr, of ?mem "2 ^ (16 - k) + 2" k]
  obtain sf where sf:
    "compress_loop inp (nat outputLength) (2 ^ k + 2) (2 ^ (16 - k) + 2) k (compress_init ?mem)
       = Inr sf"
    "c_current sf = ?n" "literal_state ?mem inp sf"
    by (auto simp: compress_init_def)
  from sf(3) have nx: "c_next sf = literal_size ?n"
    and bm: "c_bitMask sf = (if ?n mod 32 = 0 then 0 else 2 ^ (?n mod 32))"
    and bc: "c_byteCount sf = ?n mod 4"
    and sc: "c_stringCount sf = 0"
    and bits: "c_bits sf = 0"
    and nb: "?n mod 32 \<noteq> 0 \<Longrightarrow> c_nextBits sf = flag_word_cell (?n div 32)"
    and nby: "?n mod 4 \<noteq> 0 \<Longrightarrow> c_nextBytes sf = byte_word_cell (?n div 4)"
    and byt: "?n mod 4 \<noteq> 0 \<Longrightarrow> c_bytes sf = literal_word inp (?n div 4)"
    and mem: "c_mem sf = literal_words ?mem inp (?n div 32) (?n div 4)"
    unfolding literal_state_def sf(2) by simp_all
  have "?n mod 32 < 32" by simp
  then have "(2 ^ (?n mod 32) :: 32 word) \<noteq> 0" by (simp only: exp_eq_0_iff not_le)
  then have nz: "c_bitMask sf \<noteq> 0 \<longleftrightarrow> ?n mod 32 \<noteq> 0" using bm by simp
  have m1: "(if c_bitMask sf \<noteq> 0 then (c_mem sf)(c_nextBits sf := c_bits sf) else c_mem sf) =
      literal_words ?mem inp ((?n + 31) div 32) (?n div 4)"
  proof (cases "?n mod 32 = 0")
    case True
    then show ?thesis by (simp add: nz mem ceil32)
  next
    case False
    then show ?thesis by (simp add: nz mem ceil32 nb bits literal_words_Suc_flag)
  qed
  have m2: "(if c_byteCount sf \<noteq> 0
             then (literal_words ?mem inp ((?n + 31) div 32) (?n div 4))
                    (c_nextBytes sf := c_bytes sf)
             else literal_words ?mem inp ((?n + 31) div 32) (?n div 4)) =
        literal_words ?mem inp ((?n + 31) div 32) ((?n + 3) div 4)"
  proof (cases "?n mod 4 = 0")
    case True
    then show ?thesis by (simp add: bc ceil4)
  next
    case False
    then show ?thesis by (simp add: bc ceil4 nby byt literal_words_Suc_byte)
  qed
  have fl: "flush sf = literal_words ?mem inp ((?n + 31) div 32) ((?n + 3) div 4)"
    unfolding flush_def Let_def m1 m2 using sc by simp
  have "?mem = output(0 := word_of_nat ?n, 4 := word_of_int (2 ^ k))"
    unfolding write_header_def by simp
  then have out: "flush sf = literal_output output inp (2 ^ k)"
    unfolding fl literal_output_def by (simp only:)
  have s: "sint (word_of_nat (literal_size ?n) :: 32 word) = int (literal_size ?n)"
    using sint_small [of "int (literal_size ?n)"] assms(4) by simp
  have "int (literal_size ?n) = 8 + 4 * int ((?n + 31) div 32) + 4 * int ((?n + 3) div 4)"
    unfolding literal_size_def by (simp only: int_ops)
  with s have ret: "sint (word_of_nat (c_next sf) :: 32 word) =
      8 + 4 * int ((?n + 31) div 32) + 4 * int ((?n + 3) div 4)"
    by (simp only: nx)
  have 1: "compress inp output outputLength dictionaryLength =
           Some (Inr (8 + 4 * int ((?n + 31) div 32) + 4 * int ((?n + 3) div 4),
                      literal_output output inp dictionaryLength))"
    unfolding k(1) compress_legal [OF k(2,3) ol(1)] sf(1) by (simp only: sum.case ret out)
  have 2: "\<forall>p. 8 \<le> p \<and> p < 8 + 4 * ((?n + 31) div 32) + 4 * ((?n + 3) div 4) \<and>
              4 dvd p \<longrightarrow>
              (\<exists>g<(?n + 31) div 32. p = flag_word_cell g) \<or>
              (\<exists>j<(?n + 3) div 4. p = byte_word_cell j)"
    using literal_cells [of _ ?n] unfolding literal_size_def by blast
  have 3: "inj flag_word_cell" by (rule injI) (simp add: flag_word_cell_def)
  have 4: "inj byte_word_cell" by (rule injI) (rule byte_word_cell_inj)
  have 5: "\<forall>g j. flag_word_cell g \<noteq> byte_word_cell j" using cells_distinct by blast
  from 1 2 3 4 5 show ?thesis by (intro conjI)
qed

text \<open>
  The five bytes \<open>1 2 3 4 5\<close> with the dictionary length 4, in a destination of 20 bytes
  (and the cell after it) filled with \<open>0xEEEEEEEE\<close>: the header, one flag word, the byte
  word \<open>04 03 02 01\<close>, the byte word with 5 in its low byte; the cell at offset 20 is not
  written.
\<close>

theorem all_literal_size_witness:
  "legal_dictionary 4 \<and> no_repeat [1, 2, 3, 4, 5 :: byte] (nat (4 + 2)) \<and>
   int (literal_size (length [1, 2, 3, 4, 5 :: byte])) \<le> 20 \<and>
   literal_size (length [1, 2, 3, 4, 5 :: byte]) < 2 ^ 31 \<and>
   compress [1, 2, 3, 4, 5] (\<lambda>_. 0xEEEEEEEE) 20 4 =
     Some (Inr (20, literal_output (\<lambda>_. 0xEEEEEEEE) [1, 2, 3, 4, 5] 4)) \<and>
   map (literal_output (\<lambda>_. 0xEEEEEEEE) [1, 2, 3, 4, 5] 4) [0, 4, 8, 12, 16, 20] =
     [5, 4, 0, 0x04030201, 5, 0xEEEEEEEE]"
proof -
  let ?X = "[1, 2, 3, 4, 5 :: byte]"
  have l: "legal_dictionary 4"
    unfolding legal_dictionary_def by (rule bexI [of _ 2]) simp_all
  have nr: "no_repeat ?X (nat (4 + 2))"
    unfolding no_repeat_def by (simp add: upt_rec)
  have sz: "int (literal_size (length ?X)) \<le> 20" "literal_size (length ?X) < 2 ^ 31"
    by (simp_all add: literal_size_def)
  from all_literal_size [OF l nr sz, of "\<lambda>_. 0xEEEEEEEE"]
  have c: "compress ?X (\<lambda>_. 0xEEEEEEEE) 20 4 =
     Some (Inr (20, literal_output (\<lambda>_. 0xEEEEEEEE) ?X 4))"
    by simp
  have "case compress ?X (\<lambda>_. 0xEEEEEEEE) 20 4 of
          Some (Inr (n, m)) \<Rightarrow>
            n = 20 \<and> map m [0, 4, 8, 12, 16, 20] = [5, 4, 0, 0x04030201, 5, 0xEEEEEEEE]
        | _ \<Rightarrow> False"
    by code_simp
  with c have m: "map (literal_output (\<lambda>_. 0xEEEEEEEE) ?X 4) [0, 4, 8, 12, 16, 20] =
     [5, 4, 0, 0x04030201, 5, 0xEEEEEEEE]"
    by simp
  from l nr sz c m show ?thesis by (intro conjI)
qed

text \<open>
  Claim C10. Reading the header that lines 50 to 52 write gives back both values, for any two
  \<^verbatim>\<open>int\<close> values; and after a successful \<^verbatim>\<open>compress\<close> with a legal dictionary
  length the header of the destination holds the input's length and the dictionary length,
  which \<^verbatim>\<open>getDecompressedLength\<close> reads from the first cell alone.
\<close>

theorem header_roundtrip:
  "(- (2 ^ 31) \<le> n \<and> n < 2 ^ 31 \<and> - (2 ^ 31) \<le> d \<and> d < 2 ^ 31 \<longrightarrow>
      read_header (write_header output n d) = (n, d)) \<and>
   (legal_dictionary dictionaryLength \<and> length inp < 2 ^ 31 \<and>
    compress inp output outputLength dictionaryLength = Some (Inr (r, m)) \<and> r \<noteq> 0 \<longrightarrow>
      read_header m = (int (length inp), dictionaryLength) \<and>
      getDecompressedLength m = int (length inp))"
proof (rule conjI; rule impI)
  assume a: "- (2 ^ 31) \<le> n \<and> n < 2 ^ 31 \<and> - (2 ^ 31) \<le> d \<and> d < 2 ^ 31"
  have "sint (word_of_int x :: 32 word) = x" if "- (2 ^ 31) \<le> x" "x < 2 ^ 31" for x
    using that by (simp add: sint_sbintrunc' signed_take_bit_int_eq_self)
  with a show "read_header (write_header output n d) = (n, d)"
    by (simp add: read_header_def write_header_def)
next
  assume a: "legal_dictionary dictionaryLength \<and> length inp < 2 ^ 31 \<and>
    compress inp output outputLength dictionaryLength = Some (Inr (r, m)) \<and> r \<noteq> 0"
  then obtain k where k: "dictionaryLength = 2 ^ k" "2 \<le> k" "k \<le> 14"
    by (auto simp: legal_dictionary_def)
  from a have c: "compress inp output outputLength (2 ^ k) = Some (Inr (r, m))" "r \<noteq> 0"
    and len: "length inp < 2 ^ 31"
    by (simp_all add: k(1))
  from compress_success_loop [OF k(2,3) c] obtain sf where sf:
      "compress_loop inp (nat outputLength) (2 ^ k + 2) (2 ^ (16 - k) + 2) k
         (compress_init (write_header output (int (length inp)) (2 ^ k))) = Inr sf"
      "m = flush sf"
    by blast
  have k16: "k \<le> 16" using k by simp
  from compress_loop_agrees [OF compress_init_ok _ k16 sf(1)]
  have ag: "agrees (compress_init (write_header output (int (length inp)) (2 ^ k))) m"
    by (simp add: compress_init_def sf(2))
  have hdr: "m 0 = word_of_int (int (length inp))" "m 4 = word_of_int (2 ^ k)"
    using ag by (simp_all add: agrees_def is_open_def compress_init_def write_header_def)
  have s1: "sint (word_of_int (int (length inp)) :: 32 word) = int (length inp)"
    by (rule sint_small) (use len in simp_all)
  have "(2::int) ^ k \<le> 2 ^ 14"
    using k by (simp only: power_increasing_iff one_less_numeral_iff semiring_norm)
  then have s2: "sint (word_of_int (2 ^ k) :: 32 word) = 2 ^ k"
    by (intro sint_small) simp_all
  show "read_header m = (int (length inp), dictionaryLength) \<and>
      getDecompressedLength m = int (length inp)"
    by (simp only: read_header_def getDecompressedLength_def hdr s1 s2 k(1) simp_thms)
qed

theorem header_roundtrip_witness:
  "read_header (write_header (\<lambda>_. 0) 8 8192) = (8, 8192) \<and>
   legal_dictionary 4 \<and> length [0x61, 0x62, 0x63, 0x64 :: byte] < 2 ^ 31 \<and>
   (\<exists>r m. compress [0x61, 0x62, 0x63, 0x64] (\<lambda>_. 0) 64 4 = Some (Inr (r, m)) \<and> r \<noteq> 0 \<and>
      getDecompressedLength m = 4)"
proof -
  let ?X = "[0x61, 0x62, 0x63, 0x64 :: byte]"
  have l: "legal_dictionary 4"
    unfolding legal_dictionary_def by (rule bexI [of _ 2]) simp_all
  have "case compress ?X (\<lambda>_. 0) 64 4 of Some (Inr (r, m)) \<Rightarrow> r \<noteq> 0 | _ \<Rightarrow> False"
    by code_simp
  then obtain r m where c: "compress ?X (\<lambda>_. 0) 64 4 = Some (Inr (r, m))" "r \<noteq> 0"
    by (auto split: option.splits sum.splits)
  have "getDecompressedLength m = 4"
    using header_roundtrip [of 0 0 "\<lambda>_. 0" 4 ?X 64 r m] l c by simp
  moreover have "read_header (write_header (\<lambda>_. 0) 8 8192) = (8, 8192)"
    using header_roundtrip [of 8 8192 "\<lambda>_. 0"] by simp
  ultimately show ?thesis using l c by auto
qed

end
